theory Spec2Isabelle
  imports Main "HOL-Library.AList"
begin

section \<open>JavaScript values\<close>

text \<open>
  The tracker and the response object pass around arbitrary JavaScript values and test
  them for truthiness (\<^verbatim>\<open>if (error)\<close>, \<^verbatim>\<open>if (flightData.timeoutHandle)\<close>).
  Numbers are restricted to integers; every object, buffer and \<^verbatim>\<open>Error\<close> is truthy.
\<close>

datatype jsval =
    JUndefined
  | JNull
  | JBool bool
  | JNum int
  | JStr string
  | JBuffer "nat list"
  | JObject "(string \<times> jsval) list"
  | JError string

fun truthy :: "jsval \<Rightarrow> bool" where
  "truthy JUndefined = False"
| "truthy JNull = False"
| "truthy (JBool b) = b"
| "truthy (JNum n) = (n \<noteq> 0)"
| "truthy (JStr s) = (s \<noteq> [])"
| "truthy (JBuffer b) = True"
| "truthy (JObject fs) = True"
| "truthy (JError m) = True"

section \<open>RequestTracker (src/request-tracker.js)\<close>

subsection \<open>State\<close>

text \<open>
  A waiter callback is caller-supplied code \<^verbatim>\<open>(error, result) => ...\<close>. The model gives
  it an identifier and a behaviour: for the arguments of a call it either returns
  (\<open>None\<close>) or throws a value (\<open>Some ex\<close>). Callbacks do not call back into the
  tracker. Every call of a callback and every \<^verbatim>\<open>console.error\<close> is recorded in the
  trace.
\<close>

record callback =
  cb_id :: nat
  cb_throws :: "jsval \<Rightarrow> jsval \<Rightarrow> jsval option"

datatype event =
    Call nat jsval jsval
  | ConsoleError string jsval

text \<open>
  The object literal built in \<^verbatim>\<open>registerFlight\<close>. \<^verbatim>\<open>timeoutHandle\<close> is \<open>None\<close> for
  \<^verbatim>\<open>null\<close> and \<open>Some tid\<close> for the handle returned by \<^verbatim>\<open>setTimeout\<close>.
\<close>

record FlightData =
  key :: string
  startTime :: int
  waiters :: "callback list"
  result :: jsval
  error :: jsval
  completed :: bool
  timeoutHandle :: "nat option"

text \<open>
  Flight records are JavaScript objects: the \<^verbatim>\<open>flights\<close> map and the closures returned
  to callers share them by reference. The model keeps them in a store indexed by
  reference; \<open>nextRef\<close> is the next fresh reference. \<^verbatim>\<open>flights\<close> is a \<^verbatim>\<open>Map\<close>, kept as
  an association list in insertion order. \<open>timers\<close> holds the armed timeouts: the key
  captured by the closure passed to \<^verbatim>\<open>setTimeout\<close>, and the delay.
\<close>

record tracker =
  flights :: "(string \<times> nat) list"
  timeoutMs :: int
  heap :: "nat \<Rightarrow> FlightData"
  nextRef :: nat
  timers :: "nat \<Rightarrow> (string \<times> int) option"
  nextTimer :: nat
  trace :: "event list"

definition blankFlight :: FlightData where
  "blankFlight = \<lparr> key = [], startTime = 0, waiters = [], result = JUndefined,
     error = JUndefined, completed = False, timeoutHandle = None \<rparr>"

text \<open>\<^verbatim>\<open>constructor(timeoutMs = 30000)\<close>\<close>

definition RequestTracker :: "int option \<Rightarrow> tracker" where
  "RequestTracker tmo =
     \<lparr> flights = [],
       timeoutMs = (case tmo of None \<Rightarrow> 30000 | Some ms \<Rightarrow> ms),
       heap = (\<lambda>_. blankFlight), nextRef = 0,
       timers = (\<lambda>_. None), nextTimer = 0, trace = [] \<rparr>"

subsection \<open>Methods\<close>

definition createFlightKey :: "string \<Rightarrow> string \<Rightarrow> string" where
  "createFlightKey method url = method @ '':'' @ url"

definition isInFlight :: "tracker \<Rightarrow> string \<Rightarrow> string \<Rightarrow> bool" where
  "isInFlight t method url = (map_of (flights t) (createFlightKey method url) \<noteq> None)"

text \<open>
  The object returned by \<^verbatim>\<open>registerFlight\<close> and \<^verbatim>\<open>getOrCreateFlight\<close>: \<open>isNew\<close>, the
  reference \<open>flightData\<close>, and the key its closures captured. An object with
  \<open>isNew = False\<close> has only \<^verbatim>\<open>addWaiter\<close>.
\<close>

datatype flightInfo = FlightInfo (isNew: bool) (flightData: nat) (flightKey: string)

definition invoke :: "tracker \<Rightarrow> callback \<Rightarrow> jsval \<Rightarrow> jsval \<Rightarrow> tracker \<times> jsval option" where
  "invoke t cb e r = (t\<lparr>trace := trace t @ [Call (cb_id cb) e r]\<rparr>, cb_throws cb e r)"

text \<open>The body of \<^verbatim>\<open>waiters.forEach\<close> in \<^verbatim>\<open>completeFlight\<close>, with its \<^verbatim>\<open>try/catch\<close>.\<close>

definition notifyOne :: "jsval \<Rightarrow> jsval \<Rightarrow> tracker \<Rightarrow> callback \<Rightarrow> tracker" where
  "notifyOne err rs t cb =
     (case (if truthy err then invoke t cb err JNull else invoke t cb JNull rs) of
        (t', None) \<Rightarrow> t'
      | (t', Some callbackError) \<Rightarrow>
          t'\<lparr>trace := trace t' @ [ConsoleError ''[Hogo] Waiter callback error:'' callbackError]\<rparr>)"

fun forEachWaiter :: "jsval \<Rightarrow> jsval \<Rightarrow> tracker \<Rightarrow> callback list \<Rightarrow> tracker" where
  "forEachWaiter err rs t [] = t"
| "forEachWaiter err rs t (cb # cbs) = forEachWaiter err rs (notifyOne err rs t cb) cbs"

definition clearTimeout :: "tracker \<Rightarrow> nat \<Rightarrow> tracker" where
  "clearTimeout t tid = t\<lparr>timers := (timers t)(tid := None)\<rparr>"

definition completeFlight :: "tracker \<Rightarrow> string \<Rightarrow> jsval \<Rightarrow> jsval \<Rightarrow> tracker" where
  "completeFlight t k err rs =
     (case map_of (flights t) k of
        None \<Rightarrow> t
      | Some a \<Rightarrow>
          let t1 = (case timeoutHandle (heap t a) of
                      None \<Rightarrow> t
                    | Some tid \<Rightarrow> clearTimeout t tid);
              t2 = t1\<lparr>heap := (heap t1)
                     (a := (heap t1 a)\<lparr>error := err, result := rs, completed := True\<rparr>)\<rparr>;
              t3 = forEachWaiter err rs t2 (waiters (heap t2 a))
          in t3\<lparr>flights := AList.delete k (flights t3)\<rparr>)"

definition abortFlight :: "tracker \<Rightarrow> string \<Rightarrow> jsval \<Rightarrow> tracker" where
  "abortFlight t k err =
     (case map_of (flights t) k of
        None \<Rightarrow> t
      | Some a \<Rightarrow> if \<not> completed (heap t a) then completeFlight t k err JNull else t)"

definition timeoutError :: jsval where
  "timeoutError = JError ''Request flight timeout exceeded''"

text \<open>
  The timeout callback armed by \<^verbatim>\<open>registerFlight\<close>. A timer fires at most once and
  only while armed; when it fires it runs \<^verbatim>\<open>abortFlight(key, new Error(...))\<close>.
\<close>

definition fireTimer :: "tracker \<Rightarrow> nat \<Rightarrow> tracker" where
  "fireTimer t tid =
     (case timers t tid of
        None \<Rightarrow> t
      | Some (k, ms) \<Rightarrow> abortFlight (t\<lparr>timers := (timers t)(tid := None)\<rparr>) k timeoutError)"

text \<open>\<open>now\<close> is the value of \<^verbatim>\<open>Date.now()\<close>.\<close>

definition registerFlight :: "tracker \<Rightarrow> int \<Rightarrow> string \<Rightarrow> string \<Rightarrow> tracker \<times> flightInfo" where
  "registerFlight t now method url =
     (let k = createFlightKey method url;
          a = nextRef t;
          tid = nextTimer t;
          fd = \<lparr> key = k, startTime = now, waiters = [], result = JNull, error = JNull,
                 completed = False, timeoutHandle = Some tid \<rparr>
      in (t\<lparr> heap := (heap t)(a := fd), nextRef := Suc a,
              timers := (timers t)(tid \<mapsto> (k, timeoutMs t)), nextTimer := Suc tid,
              flights := AList.update k a (flights t) \<rparr>,
          FlightInfo True a k))"

definition getOrCreateFlight :: "tracker \<Rightarrow> int \<Rightarrow> string \<Rightarrow> string \<Rightarrow> tracker \<times> flightInfo" where
  "getOrCreateFlight t now method url =
     (let k = createFlightKey method url in
      case map_of (flights t) k of
        Some existing \<Rightarrow>
          if \<not> completed (heap t existing) then (t, FlightInfo False existing k)
          else registerFlight t now method url
      | None \<Rightarrow> registerFlight t now method url)"

text \<open>
  \<^verbatim>\<open>addWaiter\<close>: the closure of \<^verbatim>\<open>registerFlight\<close> when \<open>isNew\<close>, the closure of
  \<^verbatim>\<open>getOrCreateFlight\<close> otherwise. A callback called here is outside any \<^verbatim>\<open>try\<close>: what
  it throws reaches the caller (second component).
\<close>

definition addWaiter :: "tracker \<Rightarrow> flightInfo \<Rightarrow> callback \<Rightarrow> tracker \<times> jsval option" where
  "addWaiter t h cb =
     (let a = flightData h; fd = heap t a in
      if isNew h then
        (if completed fd then
           (if truthy (error fd) then invoke t cb (error fd) JNull
            else invoke t cb JNull (result fd))
         else (t\<lparr>heap := (heap t)(a := fd\<lparr>waiters := waiters fd @ [cb]\<rparr>)\<rparr>, None))
      else
        (if truthy (error fd) then invoke t cb (error fd) JNull
         else (t\<lparr>heap := (heap t)(a := fd\<lparr>waiters := waiters fd @ [cb]\<rparr>)\<rparr>, None)))"

definition notAFunction :: "string \<Rightarrow> jsval" where
  "notAFunction name = JError (''TypeError: flightInfo.'' @ name @ '' is not a function'')"

definition setResult :: "tracker \<Rightarrow> flightInfo \<Rightarrow> jsval \<Rightarrow> tracker \<times> jsval option" where
  "setResult t h rs =
     (if isNew h then (completeFlight t (flightKey h) JNull rs, None)
      else (t, Some (notAFunction ''setResult'')))"

definition setError :: "tracker \<Rightarrow> flightInfo \<Rightarrow> jsval \<Rightarrow> tracker \<times> jsval option" where
  "setError t h err =
     (if isNew h then (completeFlight t (flightKey h) err JNull, None)
      else (t, Some (notAFunction ''setError'')))"

record flightStat =
  stat_key :: string
  stat_startTime :: int
  stat_waiters :: nat
  stat_duration :: int

record stats =
  totalInFlight :: nat
  stat_flights :: "flightStat list"

definition getStats :: "tracker \<Rightarrow> int \<Rightarrow> stats" where
  "getStats t now =
     \<lparr> totalInFlight = length (flights t),
       stat_flights = map (\<lambda>(k, a). let f = heap t a in
           \<lparr> stat_key = key f, stat_startTime = startTime f,
             stat_waiters = length (waiters f), stat_duration = now - startTime f \<rparr>) (flights t) \<rparr>"

fun clearTimers :: "tracker \<Rightarrow> (string \<times> nat) list \<Rightarrow> tracker" where
  "clearTimers t [] = t"
| "clearTimers t ((k, a) # fs) =
     clearTimers (case timeoutHandle (heap t a) of None \<Rightarrow> t | Some tid \<Rightarrow> clearTimeout t tid) fs"

definition clear :: "tracker \<Rightarrow> tracker" where
  "clear t = (clearTimers t (flights t))\<lparr>flights := []\<rparr>"

subsection \<open>Sequences of calls\<close>

text \<open>
  \<open>getOrCreateMany\<close> issues one \<^verbatim>\<open>getOrCreateFlight(method, url)\<close> per timestamp, one
  after the other, and collects the returned objects in call order.
\<close>

fun getOrCreateMany :: "tracker \<Rightarrow> int list \<Rightarrow> string \<Rightarrow> string \<Rightarrow> tracker \<times> flightInfo list" where
  "getOrCreateMany t [] method url = (t, [])"
| "getOrCreateMany t (now # nows) method url =
     (case getOrCreateFlight t now method url of
        (t', h) \<Rightarrow> (case getOrCreateMany t' nows method url of
                      (t'', hs) \<Rightarrow> (t'', h # hs)))"

text \<open>
  A client of the tracker: the calls it may make, on the objects it was handed. A call
  names its object by position in the list of objects returned so far; a position not
  yet handed out is no call at all.
\<close>

datatype op =
    OpGetOrCreateFlight int string string
  | OpAddWaiter nat callback
  | OpSetResult nat jsval
  | OpSetError nat jsval
  | OpTimerFire nat

fun step :: "tracker \<times> flightInfo list \<Rightarrow> op \<Rightarrow> tracker \<times> flightInfo list" where
  "step (t, hs) (OpGetOrCreateFlight now method url) =
     (case getOrCreateFlight t now method url of (t', h) \<Rightarrow> (t', hs @ [h]))"
| "step (t, hs) (OpAddWaiter i cb) =
     (if i < length hs then (fst (addWaiter t (hs ! i) cb), hs) else (t, hs))"
| "step (t, hs) (OpSetResult i v) =
     (if i < length hs then (fst (setResult t (hs ! i) v), hs) else (t, hs))"
| "step (t, hs) (OpSetError i e) =
     (if i < length hs then (fst (setError t (hs ! i) e), hs) else (t, hs))"
| "step (t, hs) (OpTimerFire tid) = (fireTimer t tid, hs)"

definition run :: "int option \<Rightarrow> op list \<Rightarrow> tracker \<times> flightInfo list" where
  "run tmo ops = foldl step (RequestTracker tmo, []) ops"

subsection \<open>Trace and invariants\<close>

text \<open>
  What the \<^verbatim>\<open>forEach\<close> body adds to the trace for one waiter: the call, and the
  \<^verbatim>\<open>console.error\<close> of the \<^verbatim>\<open>catch\<close> block when the callback throws.
\<close>

definition notification :: "jsval \<Rightarrow> jsval \<Rightarrow> callback \<Rightarrow> event list" where
  "notification err rs cb =
     (if truthy err
      then Call (cb_id cb) err JNull #
           (case cb_throws cb err JNull of None \<Rightarrow> []
            | Some ex \<Rightarrow> [ConsoleError ''[Hogo] Waiter callback error:'' ex])
      else Call (cb_id cb) JNull rs #
           (case cb_throws cb JNull rs of None \<Rightarrow> []
            | Some ex \<Rightarrow> [ConsoleError ''[Hogo] Waiter callback error:'' ex]))"

fun isCall :: "event \<Rightarrow> bool" where
  "isCall (Call i e r) = True"
| "isCall (ConsoleError m x) = False"

text \<open>
  The tracker invariant: every entry of \<^verbatim>\<open>flights\<close> points to an allocated record that
  carries the entry's key and is not completed; every allocated record that is not
  completed is the entry of its key and has no error stored.
\<close>

definition inv :: "tracker \<Rightarrow> bool" where
  "inv t \<longleftrightarrow>
     (\<forall>k a. map_of (flights t) k = Some a \<longrightarrow>
        a < nextRef t \<and> key (heap t a) = k \<and> \<not> completed (heap t a)) \<and>
     (\<forall>a. a < nextRef t \<longrightarrow> \<not> completed (heap t a) \<longrightarrow>
        map_of (flights t) (key (heap t a)) = Some a \<and> error (heap t a) = JNull)"

text \<open>
  The objects handed to callers point to allocated records, and the key their closures
  captured is the record's key. Records are never freed and keep their key (\<open>grows\<close>).
\<close>

definition issued :: "tracker \<Rightarrow> flightInfo list \<Rightarrow> bool" where
  "issued t hs \<longleftrightarrow>
     (\<forall>h \<in> set hs. flightData h < nextRef t \<and> flightKey h = key (heap t (flightData h)))"

definition grows :: "tracker \<Rightarrow> tracker \<Rightarrow> bool" where
  "grows t t' \<longleftrightarrow>
     nextRef t \<le> nextRef t' \<and> (\<forall>a. a < nextRef t \<longrightarrow> key (heap t' a) = key (heap t a))"

definition sinv :: "tracker \<times> flightInfo list \<Rightarrow> bool" where
  "sinv s \<longleftrightarrow> inv (fst s) \<and> issued (fst s) (snd s)"

text \<open>
  The timer invariant: every allocated record holds the handle of a timer that has been
  created, and while the record is not completed that timer is armed with the record's
  key and the tracker's delay.
\<close>

definition tinv :: "tracker \<Rightarrow> bool" where
  "tinv t \<longleftrightarrow>
     (\<forall>a. a < nextRef t \<longrightarrow>
        (\<exists>tid. tid < nextTimer t \<and> timeoutHandle (heap t a) = Some tid \<and>
           (\<not> completed (heap t a) \<longrightarrow> timers t tid = Some (key (heap t a), timeoutMs t))))"

definition rinv :: "tracker \<times> flightInfo list \<Rightarrow> bool" where
  "rinv s \<longleftrightarrow> sinv s \<and> tinv (fst s)"

subsection \<open>Scenarios\<close>

text \<open>Two kinds of callback used in the scenarios below: one that returns, one that throws.\<close>

definition quietCallback :: "nat \<Rightarrow> callback" where
  "quietCallback n = \<lparr> cb_id = n, cb_throws = (\<lambda>e r. None) \<rparr>"

definition throwingCallback :: "nat \<Rightarrow> jsval \<Rightarrow> callback" where
  "throwingCallback n ex = \<lparr> cb_id = n, cb_throws = (\<lambda>e r. Some ex) \<rparr>"

text \<open>The callback calls made between two states of the tracker, in order.\<close>

definition delivered :: "tracker \<Rightarrow> tracker \<Rightarrow> event list" where
  "delivered t t' = filter isCall (drop (length (trace t)) (trace t'))"

text \<open>
  Scenarios. \<open>pendingOps\<close>: three requests for one key, each attaching a waiter (the
  second waiter throws when called). \<open>lateJoinOps\<close>: two requests for one key, then the
  first completes the flight with a result. \<open>staleOps\<close>: a flight times out, a second
  request for the same key starts a new flight and attaches a waiter. \<open>timedOutOps\<close>:
  \<open>pendingOps\<close>, then the timeout fires.
\<close>

definition pendingOps :: "op list" where
  "pendingOps =
     [OpGetOrCreateFlight 0 ''GET'' ''/data'', OpAddWaiter 0 (quietCallback 1),
      OpGetOrCreateFlight 1 ''GET'' ''/data'', OpAddWaiter 1 (throwingCallback 2 (JStr ''sink'')),
      OpGetOrCreateFlight 2 ''GET'' ''/data'', OpAddWaiter 2 (quietCallback 3)]"

definition lateJoinOps :: "op list" where
  "lateJoinOps =
     [OpGetOrCreateFlight 0 ''GET'' ''/x'', OpGetOrCreateFlight 1 ''GET'' ''/x'',
      OpSetResult 0 (JNum 1)]"

definition staleOps :: "op list" where
  "staleOps =
     [OpGetOrCreateFlight 0 ''GET'' ''/slow'', OpTimerFire 0,
      OpGetOrCreateFlight 3000 ''GET'' ''/slow'', OpAddWaiter 1 (quietCallback 7)]"

definition timedOutOps :: "op list" where
  "timedOutOps = pendingOps @ [OpTimerFire 0]"

section \<open>Ship, the response object (src/ship.js)\<close>

text \<open>
  The underlying \<^verbatim>\<open>res\<close> is Node's response object, outside this repository. The model
  records the calls made on it; whether a call throws is given by \<open>resThrows\<close>, from the
  calls made before and the call itself. \<^verbatim>\<open>JSON.stringify\<close>, \<^verbatim>\<open>String\<close> and
  \<^verbatim>\<open>new Date().toISOString()\<close> are parameters as well; the first two may throw
  (\<open>Inl\<close>).
\<close>

datatype resCall =
    SetHeader jsval jsval
  | WriteHead jsval "(string \<times> jsval) list"
  | End jsval

record env =
  resThrows :: "resCall list \<Rightarrow> resCall \<Rightarrow> jsval option"
  jsonStringify :: "jsval \<Rightarrow> jsval + jsval"
  toString :: "jsval \<Rightarrow> jsval + string"
  toISOString :: string

record Ship =
  res :: "resCall list"
  headersSent :: bool
  statusCode :: jsval
  responseData :: jsval
  contentType :: jsval
  console :: "string list"

text \<open>
  What a method call does besides changing the object: it returns a value, returns
  \<^verbatim>\<open>this\<close> (the fluent methods), or throws.
\<close>

datatype ret = Returned jsval | ReturnedThis | Thrown jsval

fun isThrown :: "ret \<Rightarrow> bool" where
  "isThrown (Thrown ex) = True"
| "isThrown (Returned v) = False"
| "isThrown ReturnedThis = False"

definition newShip :: Ship where
  "newShip = \<lparr> res = [], headersSent = False, statusCode = JNum 200, responseData = JNull,
     contentType = JNull, console = [] \<rparr>"

definition resDo :: "env \<Rightarrow> Ship \<Rightarrow> resCall \<Rightarrow> Ship \<times> jsval option" where
  "resDo env s c = (s\<lparr>res := res s @ [c]\<rparr>, resThrows env (res s) c)"

definition byteLength :: "jsval \<Rightarrow> jsval + nat" where
  "byteLength v =
     (case v of
        JStr str \<Rightarrow> Inr (length str)
      | JBuffer b \<Rightarrow> Inr (length b)
      | _ \<Rightarrow> Inl (JError ''TypeError [ERR_INVALID_ARG_TYPE]''))"

text \<open>The guard shared by the sending methods: log and return \<^verbatim>\<open>undefined\<close>.\<close>

definition alreadySent :: "Ship \<Rightarrow> Ship \<times> ret" where
  "alreadySent s = (s\<lparr>console := console s @ [''[Hogo] Headers already sent'']\<rparr>, Returned JUndefined)"

definition status :: "Ship \<Rightarrow> jsval \<Rightarrow> Ship \<times> ret" where
  "status s code = (if \<not> headersSent s then s\<lparr>statusCode := code\<rparr> else s, ReturnedThis)"

definition header :: "env \<Rightarrow> Ship \<Rightarrow> jsval \<Rightarrow> jsval \<Rightarrow> Ship \<times> ret" where
  "header env s name v =
     (if \<not> headersSent s then
        (case resDo env s (SetHeader name v) of
           (s1, Some ex) \<Rightarrow> (s1, Thrown ex)
         | (s1, None) \<Rightarrow> (s1, ReturnedThis))
      else (s, ReturnedThis))"

text \<open>
  The common tail of the sending methods: \<^verbatim>\<open>writeHead\<close>, \<^verbatim>\<open>end\<close>, then
  \<^verbatim>\<open>this.headersSent = true\<close> and the return value.
\<close>

definition endAndMark :: "env \<Rightarrow> Ship \<Rightarrow> jsval \<Rightarrow> jsval \<Rightarrow> Ship \<times> ret" where
  "endAndMark env s payload rv =
     (case resDo env s (End payload) of
        (s1, Some ex) \<Rightarrow> (s1, Thrown ex)
      | (s1, None) \<Rightarrow> (s1\<lparr>headersSent := True\<rparr>, Returned rv))"

definition writeAndEnd ::
  "env \<Rightarrow> Ship \<Rightarrow> jsval \<Rightarrow> (string \<times> jsval) list \<Rightarrow> jsval \<Rightarrow> jsval \<Rightarrow> Ship \<times> ret" where
  "writeAndEnd env s code hdrs payload rv =
     (case resDo env s (WriteHead code hdrs) of
        (s1, Some ex) \<Rightarrow> (s1, Thrown ex)
      | (s1, None) \<Rightarrow> endAndMark env s1 payload rv)"

text \<open>A default parameter value applies when the argument is \<^verbatim>\<open>undefined\<close>.\<close>

definition defaultArg :: "jsval \<Rightarrow> jsval \<Rightarrow> jsval" where
  "defaultArg v d = (if v = JUndefined then d else v)"

definition deliver :: "env \<Rightarrow> Ship \<Rightarrow> jsval \<Rightarrow> jsval \<Rightarrow> Ship \<times> ret" where
  "deliver env s d ct0 =
     (let ct = defaultArg ct0 (JStr ''application/octet-stream'') in
      if headersSent s then alreadySent s
      else
        let s1 = s\<lparr>responseData := d, contentType := ct\<rparr> in
        case resDo env s1 (WriteHead (statusCode s1) [(''Content-Type'', ct)]) of
          (s2, Some ex) \<Rightarrow> (s2, Thrown ex)
        | (s2, None) \<Rightarrow>
            (case (case d of JStr str \<Rightarrow> Inr d | JBuffer b \<Rightarrow> Inr d
                   | _ \<Rightarrow> map_sum id JStr (toString env d)) of
               Inl ex \<Rightarrow> (s2, Thrown ex)
             | Inr payload \<Rightarrow> endAndMark env s2 payload d))"

definition json :: "env \<Rightarrow> Ship \<Rightarrow> jsval \<Rightarrow> Ship \<times> ret" where
  "json env s d =
     (if headersSent s then alreadySent s
      else
        let s1 = s\<lparr>responseData := d, contentType := JStr ''application/json; charset=utf-8''\<rparr> in
        case jsonStringify env d of
          Inl ex \<Rightarrow> (s1, Thrown ex)
        | Inr payload \<Rightarrow>
            (case byteLength payload of
               Inl ex \<Rightarrow> (s1, Thrown ex)
             | Inr n \<Rightarrow>
                 writeAndEnd env s1 (statusCode s1)
                   [(''Content-Type'', contentType s1), (''Content-Length'', JNum (int n))]
                   payload d))"

text \<open>\<^verbatim>\<open>text\<close> and \<^verbatim>\<open>html\<close> differ in the content type only.\<close>

definition sendString :: "env \<Rightarrow> Ship \<Rightarrow> jsval \<Rightarrow> string \<Rightarrow> Ship \<times> ret" where
  "sendString env s d ct =
     (if headersSent s then alreadySent s
      else
        let s1 = s\<lparr>responseData := d, contentType := JStr ct\<rparr> in
        case toString env d of
          Inl ex \<Rightarrow> (s1, Thrown ex)
        | Inr payload \<Rightarrow>
            writeAndEnd env s1 (statusCode s1)
              [(''Content-Type'', contentType s1), (''Content-Length'', JNum (int (length payload)))]
              (JStr payload) d)"

definition text_ship :: "env \<Rightarrow> Ship \<Rightarrow> jsval \<Rightarrow> Ship \<times> ret" where
  "text_ship env s d = sendString env s d ''text/plain; charset=utf-8''"

definition html :: "env \<Rightarrow> Ship \<Rightarrow> jsval \<Rightarrow> Ship \<times> ret" where
  "html env s d = sendString env s d ''text/html; charset=utf-8''"

definition error_ship :: "env \<Rightarrow> Ship \<Rightarrow> jsval \<Rightarrow> jsval \<Rightarrow> Ship \<times> ret" where
  "error_ship env s message code0 =
     (let code = defaultArg code0 (JNum 500) in
      if headersSent s then alreadySent s
      else
        let errorData = JObject [(''error'', message), (''status'', code),
                                 (''timestamp'', JStr (toISOString env))];
            s1 = s\<lparr>responseData := errorData,
                   contentType := JStr ''application/json; charset=utf-8''\<rparr> in
        case jsonStringify env errorData of
          Inl ex \<Rightarrow> (s1, Thrown ex)
        | Inr payload \<Rightarrow>
            (case byteLength payload of
               Inl ex \<Rightarrow> (s1, Thrown ex)
             | Inr n \<Rightarrow>
                 writeAndEnd env s1 code
                   [(''Content-Type'', contentType s1), (''Content-Length'', JNum (int n))]
                   payload errorData))"

definition isHeadersSent :: "Ship \<Rightarrow> bool" where
  "isHeadersSent s = headersSent s"

definition getResponseContext :: "Ship \<Rightarrow> jsval" where
  "getResponseContext s =
     JObject [(''data'', responseData s), (''contentType'', contentType s),
              (''statusCode'', statusCode s)]"

text \<open>A caller of one Ship: any calls of its seven methods, in any order.\<close>

datatype shipCall =
    CallStatus jsval
  | CallHeader jsval jsval
  | CallDeliver jsval jsval
  | CallJson jsval
  | CallText jsval
  | CallHtml jsval
  | CallError jsval jsval

fun shipDo :: "env \<Rightarrow> Ship \<Rightarrow> shipCall \<Rightarrow> Ship \<times> ret" where
  "shipDo env s (CallStatus code) = status s code"
| "shipDo env s (CallHeader name v) = header env s name v"
| "shipDo env s (CallDeliver d ct) = deliver env s d ct"
| "shipDo env s (CallJson d) = json env s d"
| "shipDo env s (CallText d) = text_ship env s d"
| "shipDo env s (CallHtml d) = html env s d"
| "shipDo env s (CallError message code) = error_ship env s message code"

fun isSend :: "shipCall \<Rightarrow> bool" where
  "isSend (CallStatus code) = False"
| "isSend (CallHeader name v) = False"
| "isSend c = True"

fun shipDoAll :: "env \<Rightarrow> Ship \<Rightarrow> shipCall list \<Rightarrow> Ship" where
  "shipDoAll env s [] = s"
| "shipDoAll env s (c # cs) = shipDoAll env (fst (shipDo env s c)) cs"

definition testEnv :: env where
  "testEnv = \<lparr> resThrows = (\<lambda>h c. None), jsonStringify = (\<lambda>v. Inr (JStr ''[1]'')),
     toString = (\<lambda>v. Inr ''late''), toISOString = ''2026-01-12T00:00:00.000Z'' \<rparr>"

section \<open>Properties of the tracker\<close>

subsection \<open>Auxiliary facts\<close>

lemma notifyOne_eq:
  "notifyOne err rs t cb = t\<lparr>trace := trace t @ notification err rs cb\<rparr>"
  by (simp add: notifyOne_def invoke_def notification_def split: option.splits)

lemma forEachWaiter_eq:
  "forEachWaiter err rs t cbs = t\<lparr>trace := trace t @ concat (map (notification err rs) cbs)\<rparr>"
  by (induction cbs arbitrary: t) (simp_all add: notifyOne_eq)

lemma completeFlight_None:
  "map_of (flights t) k = None \<Longrightarrow> completeFlight t k err rs = t"
  by (simp add: completeFlight_def)

lemma completeFlight_Some:
  assumes "map_of (flights t) k = Some a"
  shows "completeFlight t k err rs =
     t\<lparr> timers := (case timeoutHandle (heap t a) of None \<Rightarrow> timers t
                   | Some tid \<Rightarrow> (timers t)(tid := None)),
        heap := (heap t)(a := (heap t a)\<lparr>error := err, result := rs, completed := True\<rparr>),
        trace := trace t @ concat (map (notification err rs) (waiters (heap t a))),
        flights := AList.delete k (flights t) \<rparr>"
  using assms
  by (simp add: completeFlight_def Let_def forEachWaiter_eq clearTimeout_def split: option.splits)

lemma calls_notifications:
  "filter isCall (concat (map (notification err rs) cbs)) =
     map (\<lambda>cb. if truthy err then Call (cb_id cb) err JNull else Call (cb_id cb) JNull rs) cbs"
  by (induction cbs) (auto simp: notification_def split: option.splits)

lemma inv_init: "inv (RequestTracker tmo)"
  by (simp add: inv_def RequestTracker_def)

lemma invD1:
  "inv t \<Longrightarrow> map_of (flights t) k = Some a \<Longrightarrow>
     a < nextRef t \<and> key (heap t a) = k \<and> \<not> completed (heap t a)"
  by (simp add: inv_def)

lemma invD2:
  "inv t \<Longrightarrow> a < nextRef t \<Longrightarrow> \<not> completed (heap t a) \<Longrightarrow>
     map_of (flights t) (key (heap t a)) = Some a"
  by (simp add: inv_def)

lemma invD3:
  "inv t \<Longrightarrow> a < nextRef t \<Longrightarrow> \<not> completed (heap t a) \<Longrightarrow> error (heap t a) = JNull"
  by (simp add: inv_def)

lemma completeFlight_fields:
  assumes "map_of (flights t) k = Some a"
  shows "flights (completeFlight t k err rs) = AList.delete k (flights t)"
    and "heap (completeFlight t k err rs) =
           (heap t)(a := (heap t a)\<lparr>error := err, result := rs, completed := True\<rparr>)"
    and "nextRef (completeFlight t k err rs) = nextRef t"
    and "trace (completeFlight t k err rs) =
           trace t @ concat (map (notification err rs) (waiters (heap t a)))"
  by (simp_all add: completeFlight_Some [OF assms])

lemma inv_completeFlight:
  assumes "inv t"
  shows "inv (completeFlight t k err rs)"
proof (cases "map_of (flights t) k")
  case None
  then show ?thesis using assms by (simp add: completeFlight_None)
next
  case (Some a)
  let ?t' = "completeFlight t k err rs"
  note f = completeFlight_fields [OF Some, of err rs]
  have ka: "key (heap t a) = k" "a < nextRef t"
    using invD1 [OF assms Some] by simp_all
  have 1: "b < nextRef ?t' \<and> key (heap ?t' b) = k' \<and> \<not> completed (heap ?t' b)"
    if "map_of (flights ?t') k' = Some b" for k' b
  proof -
    from that have "k' \<noteq> k" and m: "map_of (flights t) k' = Some b"
      by (auto simp: f delete_conv' split: if_splits)
    from invD1 [OF assms Some] invD1 [OF assms m] \<open>k' \<noteq> k\<close> have "b \<noteq> a" by auto
    with invD1 [OF assms m] show ?thesis by (simp add: f)
  qed
  have 2: "map_of (flights ?t') (key (heap ?t' b)) = Some b \<and> error (heap ?t' b) = JNull"
    if "b < nextRef ?t'" "\<not> completed (heap ?t' b)" for b
  proof -
    from that have ba: "b \<noteq> a" by (auto simp: f)
    with that have b: "b < nextRef t" "\<not> completed (heap t b)" by (simp_all add: f)
    with assms have m: "map_of (flights t) (key (heap t b)) = Some b" by (simp add: invD2)
    with Some ba have "key (heap t b) \<noteq> k" by auto
    with m ba invD3 [OF assms b] show ?thesis by (simp add: f delete_conv')
  qed
  show ?thesis unfolding inv_def using 1 2 by blast
qed

lemma registerFlight_fields:
  "flights (fst (registerFlight t now method url)) =
     AList.update (createFlightKey method url) (nextRef t) (flights t)"
  "heap (fst (registerFlight t now method url)) =
     (heap t)(nextRef t := \<lparr> key = createFlightKey method url, startTime = now, waiters = [],
        result = JNull, error = JNull, completed = False, timeoutHandle = Some (nextTimer t) \<rparr>)"
  "nextRef (fst (registerFlight t now method url)) = Suc (nextRef t)"
  "trace (fst (registerFlight t now method url)) = trace t"
  "snd (registerFlight t now method url) = FlightInfo True (nextRef t) (createFlightKey method url)"
  by (simp_all add: registerFlight_def Let_def)

lemma inv_registerFlight:
  assumes "inv t" "map_of (flights t) (createFlightKey method url) = None"
  shows "inv (fst (registerFlight t now method url))"
proof -
  let ?k = "createFlightKey method url"
  let ?t' = "fst (registerFlight t now method url)"
  note f = registerFlight_fields [of t "now" "method" "url"]
  have 1: "b < nextRef ?t' \<and> key (heap ?t' b) = k' \<and> \<not> completed (heap ?t' b)"
    if "map_of (flights ?t') k' = Some b" for k' b
  proof (cases "k' = ?k")
    case True
    with that show ?thesis by (simp add: f update_conv')
  next
    case False
    with that have m: "map_of (flights t) k' = Some b" by (simp add: f update_conv')
    from invD1 [OF assms(1) m] show ?thesis by (simp add: f)
  qed
  have 2: "map_of (flights ?t') (key (heap ?t' b)) = Some b \<and> error (heap ?t' b) = JNull"
    if "b < nextRef ?t'" "\<not> completed (heap ?t' b)" for b
  proof (cases "b = nextRef t")
    case True
    then show ?thesis by (simp add: f update_conv')
  next
    case False
    with that have b: "b < nextRef t" "\<not> completed (heap t b)" by (simp_all add: f)
    from invD2 [OF assms(1) this] have m: "map_of (flights t) (key (heap t b)) = Some b" .
    with assms(2) have "key (heap t b) \<noteq> ?k" by auto
    with m False invD3 [OF assms(1) b] show ?thesis by (simp add: f update_conv')
  qed
  show ?thesis unfolding inv_def using 1 2 by blast
qed

lemma getOrCreateFlight_inv_eq:
  assumes "inv t"
  shows "getOrCreateFlight t now method url =
     (case map_of (flights t) (createFlightKey method url) of
        None \<Rightarrow> registerFlight t now method url
      | Some a \<Rightarrow> (t, FlightInfo False a (createFlightKey method url)))"
proof (cases "map_of (flights t) (createFlightKey method url)")
  case None
  then show ?thesis by (simp add: getOrCreateFlight_def)
next
  case (Some a)
  with invD1 [OF assms Some] show ?thesis by (simp add: getOrCreateFlight_def)
qed

lemma inv_getOrCreateFlight:
  assumes "inv t"
  shows "inv (fst (getOrCreateFlight t now method url))"
  using assms
  by (simp add: getOrCreateFlight_inv_eq inv_registerFlight split: option.splits)

lemma inv_abortFlight: "inv t \<Longrightarrow> inv (abortFlight t k err)"
  by (simp add: abortFlight_def inv_completeFlight split: option.splits)

lemma inv_timers_upd: "inv (t\<lparr>timers := x\<rparr>) = inv t"
  by (simp add: inv_def)

lemma inv_fireTimer: "inv t \<Longrightarrow> inv (fireTimer t tid)"
  by (simp add: fireTimer_def inv_abortFlight inv_timers_upd split: option.splits prod.splits)

lemma inv_setResult: "inv t \<Longrightarrow> inv (fst (setResult t h v))"
  by (simp add: setResult_def inv_completeFlight)

lemma inv_setError: "inv t \<Longrightarrow> inv (fst (setError t h v))"
  by (simp add: setError_def inv_completeFlight)

lemma inv_trace_upd: "inv (t\<lparr>trace := x\<rparr>) = inv t"
  by (simp add: inv_def)

lemma inv_cong:
  assumes "flights t' = flights t" "nextRef t' = nextRef t"
    and "\<And>a. key (heap t' a) = key (heap t a) \<and> completed (heap t' a) = completed (heap t a)
           \<and> error (heap t' a) = error (heap t a)"
  shows "inv t' = inv t"
  by (simp add: inv_def assms)

lemma inv_waiters_upd:
  "inv (t\<lparr>heap := (heap t)(a := (heap t a)\<lparr>waiters := w\<rparr>)\<rparr>) = inv t"
  by (rule inv_cong) simp_all

lemma addWaiter_pending:
  assumes "inv t" "flightData h < nextRef t" "\<not> completed (heap t (flightData h))"
  shows "addWaiter t h cb =
     (t\<lparr>heap := (heap t)(flightData h :=
           (heap t (flightData h))\<lparr>waiters := waiters (heap t (flightData h)) @ [cb]\<rparr>)\<rparr>, None)"
  using assms invD3 [OF assms] by (simp add: addWaiter_def Let_def)

lemma inv_addWaiter: "inv t \<Longrightarrow> inv (fst (addWaiter t h cb))"
  by (simp add: addWaiter_def Let_def invoke_def inv_trace_upd inv_waiters_upd)

lemma issued_grows: "issued t hs \<Longrightarrow> grows t t' \<Longrightarrow> issued t' hs"
  by (fastforce simp: issued_def grows_def)

lemma grows_refl: "grows t t"
  by (simp add: grows_def)

lemma grows_completeFlight: "grows t (completeFlight t k err rs)"
  by (cases "map_of (flights t) k")
     (simp_all add: completeFlight_None completeFlight_fields grows_def)

lemma grows_abortFlight: "grows t (abortFlight t k err)"
  by (simp add: abortFlight_def grows_completeFlight grows_refl split: option.splits)

lemma grows_timers_upd: "grows (t\<lparr>timers := x\<rparr>) t' = grows t t'"
  by (simp add: grows_def)

lemma fireTimer_Some:
  "timers t tid = Some (k, ms) \<Longrightarrow>
     fireTimer t tid = abortFlight (t\<lparr>timers := (timers t)(tid := None)\<rparr>) k timeoutError"
  by (simp add: fireTimer_def)

lemma grows_fireTimer: "grows t (fireTimer t tid)"
proof (cases "timers t tid")
  case None
  then show ?thesis by (simp add: fireTimer_def grows_refl)
next
  case (Some p)
  obtain k ms where p: "p = (k, ms)" by (cases p)
  have "grows (t\<lparr>timers := (timers t)(tid := None)\<rparr>)
          (abortFlight (t\<lparr>timers := (timers t)(tid := None)\<rparr>) k timeoutError)"
    by (rule grows_abortFlight)
  with Some p show ?thesis by (simp add: fireTimer_Some grows_timers_upd)
qed

lemma grows_setResult: "grows t (fst (setResult t h v))"
  by (simp add: setResult_def grows_completeFlight grows_refl)

lemma grows_setError: "grows t (fst (setError t h v))"
  by (simp add: setError_def grows_completeFlight grows_refl)

lemma grows_addWaiter: "grows t (fst (addWaiter t h cb))"
  by (simp add: addWaiter_def Let_def invoke_def grows_def)

lemma grows_registerFlight: "grows t (fst (registerFlight t now method url))"
  by (simp add: grows_def registerFlight_fields)

lemma grows_getOrCreateFlight: "grows t (fst (getOrCreateFlight t now method url))"
  by (simp add: getOrCreateFlight_def Let_def grows_registerFlight grows_refl split: option.splits)

lemma issued_getOrCreateFlight:
  assumes "inv t"
  shows "issued (fst (getOrCreateFlight t now method url)) [snd (getOrCreateFlight t now method url)]"
proof (cases "map_of (flights t) (createFlightKey method url)")
  case None
  then show ?thesis
    by (simp add: getOrCreateFlight_inv_eq [OF assms] issued_def registerFlight_fields)
next
  case (Some a)
  with invD1 [OF assms Some] show ?thesis
    by (simp add: getOrCreateFlight_inv_eq [OF assms] issued_def)
qed

lemma issued_append: "issued t (hs @ hs') \<longleftrightarrow> issued t hs \<and> issued t hs'"
  by (auto simp: issued_def)

lemma sinv_step:
  assumes "sinv s"
  shows "sinv (step s x)"
proof -
  obtain t hs where s: "s = (t, hs)" by (cases s)
  from assms s have i: "inv t" and h: "issued t hs" by (simp_all add: sinv_def)
  show ?thesis
  proof (cases x)
    case (OpGetOrCreateFlight now m u)
    obtain t' h' where g: "getOrCreateFlight t now m u = (t', h')"
      by (cases "getOrCreateFlight t now m u")
    from inv_getOrCreateFlight [OF i, of now m u] g have "inv t'" by simp
    moreover from issued_grows [OF h grows_getOrCreateFlight [of t now m u]] g
    have "issued t' hs" by simp
    moreover from issued_getOrCreateFlight [OF i, of now m u] g
    have "issued t' [h']" by simp
    ultimately show ?thesis
      by (simp add: s OpGetOrCreateFlight g sinv_def issued_append)
  next
    case (OpAddWaiter n cb)
    then show ?thesis
      using i h inv_addWaiter [OF i] issued_grows [OF h grows_addWaiter]
      by (simp add: s sinv_def)
  next
    case (OpSetResult n v)
    then show ?thesis
      using i h inv_setResult [OF i] issued_grows [OF h grows_setResult]
      by (simp add: s sinv_def)
  next
    case (OpSetError n e)
    then show ?thesis
      using i h inv_setError [OF i] issued_grows [OF h grows_setError]
      by (simp add: s sinv_def)
  next
    case (OpTimerFire tid)
    then show ?thesis
      using inv_fireTimer [OF i] issued_grows [OF h grows_fireTimer]
      by (simp add: s sinv_def)
  qed
qed

lemma sinv_foldl: "sinv s \<Longrightarrow> sinv (foldl step s ops)"
  by (induction ops arbitrary: s) (simp_all add: sinv_step)

lemma sinv_run: "sinv (run tmo ops)"
  unfolding run_def
  by (rule sinv_foldl) (simp add: sinv_def inv_init issued_def)

lemma distinct_completeFlight:
  "distinct (map fst (flights t)) \<Longrightarrow> distinct (map fst (flights (completeFlight t k err rs)))"
  by (cases "map_of (flights t) k")
     (simp_all add: completeFlight_None completeFlight_fields distinct_delete)

lemma distinct_step:
  assumes "distinct (map fst (flights (fst s)))"
  shows "distinct (map fst (flights (fst (step s x))))"
proof -
  obtain t hs where s: "s = (t, hs)" by (cases s)
  with assms have d: "distinct (map fst (flights t))" by simp
  show ?thesis
  proof (cases x)
    case (OpGetOrCreateFlight now m u)
    have "distinct (map fst (flights (fst (getOrCreateFlight t now m u))))"
      using d
      by (simp add: getOrCreateFlight_def Let_def registerFlight_fields distinct_update
          split: option.splits)
    then show ?thesis
      by (cases "getOrCreateFlight t now m u") (simp add: s OpGetOrCreateFlight)
  next
    case (OpAddWaiter n cb)
    then show ?thesis using d by (simp add: s addWaiter_def Let_def invoke_def)
  next
    case (OpSetResult n v)
    then show ?thesis using d by (simp add: s setResult_def distinct_completeFlight)
  next
    case (OpSetError n e)
    then show ?thesis using d by (simp add: s setError_def distinct_completeFlight)
  next
    case (OpTimerFire tid)
    then show ?thesis using d
      by (simp add: s fireTimer_def abortFlight_def distinct_completeFlight split: option.splits)
  qed
qed

lemma distinct_foldl:
  "distinct (map fst (flights (fst s))) \<Longrightarrow> distinct (map fst (flights (fst (foldl step s ops))))"
  by (induction ops arbitrary: s) (simp_all add: distinct_step)

lemma distinct_run: "distinct (map fst (flights (fst (run tmo ops))))"
  unfolding run_def by (rule distinct_foldl) (simp add: RequestTracker_def)

lemma run_inv:
  assumes "run tmo ops = (t, hs)"
  shows "inv t" and "issued t hs" and "distinct (map fst (flights t))"
  using sinv_run [of tmo ops] distinct_run [of tmo ops] assms by (simp_all add: sinv_def)

lemma run_handle:
  assumes "run tmo ops = (t, hs)" "i < length hs"
  shows "flightData (hs ! i) < nextRef t"
    and "flightKey (hs ! i) = key (heap t (flightData (hs ! i)))"
  using run_inv(2) [OF assms(1)] assms(2) by (simp_all add: issued_def)

lemma run_pending_registered:
  assumes "run tmo ops = (t, hs)" "i < length hs" "\<not> completed (heap t (flightData (hs ! i)))"
  shows "map_of (flights t) (flightKey (hs ! i)) = Some (flightData (hs ! i))"
  using invD2 [OF run_inv(1) [OF assms(1)] run_handle(1) [OF assms(1,2)] assms(3)]
    run_handle(2) [OF assms(1,2)] by simp

subsection \<open>The timer invariant\<close>

lemma tinvD:
  assumes "tinv t" "a < nextRef t"
  obtains tid where "tid < nextTimer t" "timeoutHandle (heap t a) = Some tid"
    "\<not> completed (heap t a) \<Longrightarrow> timers t tid = Some (key (heap t a), timeoutMs t)"
  using assms unfolding tinv_def by blast

lemma tinvI:
  assumes "\<And>a. a < nextRef t \<Longrightarrow>
     \<exists>tid. tid < nextTimer t \<and> timeoutHandle (heap t a) = Some tid \<and>
           (\<not> completed (heap t a) \<longrightarrow> timers t tid = Some (key (heap t a), timeoutMs t))"
  shows "tinv t"
  using assms unfolding tinv_def by blast

lemma tinv_init: "tinv (RequestTracker tmo)"
  by (simp add: tinv_def RequestTracker_def)

lemma registerFlight_timers:
  "timers (fst (registerFlight t now method url)) =
     (timers t)(nextTimer t \<mapsto> (createFlightKey method url, timeoutMs t))"
  "nextTimer (fst (registerFlight t now method url)) = Suc (nextTimer t)"
  "timeoutMs (fst (registerFlight t now method url)) = timeoutMs t"
  by (simp_all add: registerFlight_def Let_def)

lemma tinv_registerFlight:
  assumes "tinv t"
  shows "tinv (fst (registerFlight t now method url))"
proof (rule tinvI)
  let ?t' = "fst (registerFlight t now method url)"
  note f = registerFlight_fields [of t "now" "method" "url"] registerFlight_timers [of t "now" "method" "url"]
  fix a assume a: "a < nextRef ?t'"
  show "\<exists>tid. tid < nextTimer ?t' \<and> timeoutHandle (heap ?t' a) = Some tid \<and>
      (\<not> completed (heap ?t' a) \<longrightarrow> timers ?t' tid = Some (key (heap ?t' a), timeoutMs ?t'))"
  proof (cases "a = nextRef t")
    case True
    then show ?thesis by (simp add: f)
  next
    case False
    with a have "a < nextRef t" by (simp add: f)
    from tinvD [OF assms this] obtain tid where t: "tid < nextTimer t"
      "timeoutHandle (heap t a) = Some tid"
      "\<not> completed (heap t a) \<Longrightarrow> timers t tid = Some (key (heap t a), timeoutMs t)"
      by blast
    with False show ?thesis by (auto simp: f)
  qed
qed

lemma completeFlight_timers:
  assumes "map_of (flights t) k = Some a"
  shows "timers (completeFlight t k err rs) =
     (case timeoutHandle (heap t a) of None \<Rightarrow> timers t | Some tid \<Rightarrow> (timers t)(tid := None))"
    and "nextTimer (completeFlight t k err rs) = nextTimer t"
    and "timeoutMs (completeFlight t k err rs) = timeoutMs t"
  by (simp_all add: completeFlight_Some [OF assms])

lemma tinv_completeFlight:
  assumes "tinv t" "inv t"
  shows "tinv (completeFlight t k err rs)"
proof (cases "map_of (flights t) k")
  case None
  then show ?thesis using assms by (simp add: completeFlight_None)
next
  case (Some a)
  let ?t' = "completeFlight t k err rs"
  note f = completeFlight_fields [OF Some, of err rs] completeFlight_timers [OF Some, of err rs]
  note ia = invD1 [OF assms(2) Some]
  from tinvD [OF assms(1)] ia obtain ta where ta: "timeoutHandle (heap t a) = Some ta"
    "timers t ta = Some (k, timeoutMs t)" by metis
  show ?thesis
  proof (rule tinvI)
    fix b assume b: "b < nextRef ?t'"
    then have b': "b < nextRef t" by (simp add: f)
    from tinvD [OF assms(1) b'] obtain tid where t: "tid < nextTimer t"
      "timeoutHandle (heap t b) = Some tid"
      "\<not> completed (heap t b) \<Longrightarrow> timers t tid = Some (key (heap t b), timeoutMs t)"
      by blast
    show "\<exists>tid. tid < nextTimer ?t' \<and> timeoutHandle (heap ?t' b) = Some tid \<and>
      (\<not> completed (heap ?t' b) \<longrightarrow> timers ?t' tid = Some (key (heap ?t' b), timeoutMs ?t'))"
    proof (cases "b = a")
      case True
      with t show ?thesis by (simp add: f)
    next
      case False
      have "tid \<noteq> ta" if p: "\<not> completed (heap t b)"
      proof
        assume "tid = ta"
        with t(3) [OF p] ta have "key (heap t b) = k" by simp
        with invD2 [OF assms(2) b' p] Some False show False by simp
      qed
      with t False show ?thesis by (auto simp: f ta)
    qed
  qed
qed

lemma tinv_cong:
  assumes "nextRef t' = nextRef t" "nextTimer t' = nextTimer t" "timers t' = timers t"
    "timeoutMs t' = timeoutMs t"
    and "\<And>a. key (heap t' a) = key (heap t a) \<and> completed (heap t' a) = completed (heap t a)
           \<and> timeoutHandle (heap t' a) = timeoutHandle (heap t a)"
  shows "tinv t' = tinv t"
  by (simp add: tinv_def assms)

lemma tinv_heap_waiters:
  "tinv (t\<lparr>heap := (heap t)(a := (heap t a)\<lparr>waiters := w\<rparr>)\<rparr>) = tinv t"
  by (rule tinv_cong) simp_all

lemma tinv_trace_upd: "tinv (t\<lparr>trace := x\<rparr>) = tinv t"
  by (simp add: tinv_def)

lemma tinv_addWaiter: "tinv t \<Longrightarrow> tinv (fst (addWaiter t h cb))"
  by (simp add: addWaiter_def Let_def invoke_def tinv_trace_upd tinv_heap_waiters)

lemma tinv_setResult: "tinv t \<Longrightarrow> inv t \<Longrightarrow> tinv (fst (setResult t h v))"
  by (simp add: setResult_def tinv_completeFlight)

lemma tinv_setError: "tinv t \<Longrightarrow> inv t \<Longrightarrow> tinv (fst (setError t h v))"
  by (simp add: setError_def tinv_completeFlight)

lemma tinv_getOrCreateFlight: "tinv t \<Longrightarrow> tinv (fst (getOrCreateFlight t now method url))"
  by (simp add: getOrCreateFlight_def Let_def tinv_registerFlight split: option.splits)

lemma tinv_fireTimer:
  assumes "tinv t" "inv t"
  shows "tinv (fireTimer t tid)"
proof (cases "timers t tid")
  case None
  then show ?thesis using assms by (simp add: fireTimer_def)
next
  case (Some p)
  obtain k ms where p: "p = (k, ms)" by (cases p)
  let ?t0 = "t\<lparr>timers := (timers t)(tid := None)\<rparr>"
  have f: "fireTimer t tid = abortFlight ?t0 k timeoutError"
    using Some p by (simp add: fireTimer_Some)
  have i0: "inv ?t0" using assms(2) by (simp add: inv_timers_upd)
  show ?thesis
  proof (cases "map_of (flights t) k")
    case None
    have "tinv ?t0"
    proof (rule tinvI)
      fix b assume b: "b < nextRef ?t0"
      then have b': "b < nextRef t" by simp
      from tinvD [OF assms(1) b'] obtain tb where t: "tb < nextTimer t"
        "timeoutHandle (heap t b) = Some tb"
        "\<not> completed (heap t b) \<Longrightarrow> timers t tb = Some (key (heap t b), timeoutMs t)"
        by blast
      have "tb \<noteq> tid" if q: "\<not> completed (heap t b)"
      proof
        assume "tb = tid"
        with t(3) [OF q] Some p have "key (heap t b) = k" by simp
        with invD2 [OF assms(2) b' q] None show False by simp
      qed
      with t show "\<exists>x. x < nextTimer ?t0 \<and> timeoutHandle (heap ?t0 b) = Some x \<and>
        (\<not> completed (heap ?t0 b) \<longrightarrow> timers ?t0 x = Some (key (heap ?t0 b), timeoutMs ?t0))"
        by auto
    qed
    with None show ?thesis by (simp add: f abortFlight_def)
  next
    case (Some a)
    note ia = invD1 [OF assms(2) Some]
    from tinvD [OF assms(1)] ia obtain ta where ta: "timeoutHandle (heap t a) = Some ta"
      "timers t ta = Some (k, timeoutMs t)" by metis
    let ?t' = "completeFlight ?t0 k timeoutError JNull"
    have S0: "map_of (flights ?t0) k = Some a" using Some by simp
    note g = completeFlight_fields [OF S0, of timeoutError JNull]
      completeFlight_timers [OF S0, of timeoutError JNull]
    have a: "abortFlight ?t0 k timeoutError = ?t'"
      using Some ia by (simp add: abortFlight_def)
    have "tinv ?t'"
    proof (rule tinvI)
      fix b assume b: "b < nextRef ?t'"
      then have b': "b < nextRef t" by (simp add: g)
      from tinvD [OF assms(1) b'] obtain tb where t: "tb < nextTimer t"
        "timeoutHandle (heap t b) = Some tb"
        "\<not> completed (heap t b) \<Longrightarrow> timers t tb = Some (key (heap t b), timeoutMs t)"
        by blast
      show "\<exists>x. x < nextTimer ?t' \<and> timeoutHandle (heap ?t' b) = Some x \<and>
        (\<not> completed (heap ?t' b) \<longrightarrow> timers ?t' x = Some (key (heap ?t' b), timeoutMs ?t'))"
      proof (cases "b = a")
        case True
        with t show ?thesis by (simp add: g)
      next
        case False
        have "tb \<noteq> ta \<and> tb \<noteq> tid" if q: "\<not> completed (heap t b)"
        proof -
          have "key (heap t b) \<noteq> k"
            using invD2 [OF assms(2) b' q] Some False by auto
          with t(3) [OF q] ta(2) \<open>timers t tid = Some p\<close> p show ?thesis by auto
        qed
        with t False show ?thesis by (auto simp: g ta)
      qed
    qed
    then show ?thesis by (simp add: f a)
  qed
qed

lemma rinv_step:
  assumes "rinv s"
  shows "rinv (step s x)"
proof -
  obtain t hs where s: "s = (t, hs)" by (cases s)
  from assms s have i: "inv t" and ti: "tinv t" by (simp_all add: rinv_def sinv_def)
  have "tinv (fst (step s x))"
  proof (cases x)
    case (OpGetOrCreateFlight now m u)
    then show ?thesis
      using tinv_getOrCreateFlight [OF ti, of now m u]
      by (cases "getOrCreateFlight t now m u") (simp add: s)
  next
    case (OpAddWaiter n cb)
    then show ?thesis using ti by (simp add: s tinv_addWaiter)
  next
    case (OpSetResult n v)
    then show ?thesis using ti i by (simp add: s tinv_setResult)
  next
    case (OpSetError n e)
    then show ?thesis using ti i by (simp add: s tinv_setError)
  next
    case (OpTimerFire tid)
    then show ?thesis using ti i by (simp add: s tinv_fireTimer)
  qed
  with assms sinv_step [of s x] show ?thesis by (simp add: rinv_def)
qed

lemma rinv_foldl: "rinv s \<Longrightarrow> rinv (foldl step s ops)"
  by (induction ops arbitrary: s) (simp_all add: rinv_step)

lemma run_tinv:
  assumes "run tmo ops = (t, hs)"
  shows "tinv t"
proof -
  have "rinv (RequestTracker tmo, [])"
    by (simp add: rinv_def sinv_def inv_init issued_def tinv_init)
  from rinv_foldl [OF this, of ops] assms show ?thesis
    by (simp add: run_def rinv_def)
qed

lemma fireTimer_pending:
  assumes "map_of (flights t) k = Some a" "\<not> completed (heap t a)"
    and "timeoutHandle (heap t a) = Some tid" "timers t tid = Some (k, ms)"
  shows "fireTimer t tid = completeFlight t k timeoutError JNull"
proof -
  let ?t0 = "t\<lparr>timers := (timers t)(tid := None)\<rparr>"
  have "fireTimer t tid = completeFlight ?t0 k timeoutError JNull"
    using assms by (simp add: fireTimer_def abortFlight_def)
  also have "\<dots> = completeFlight t k timeoutError JNull"
    using assms by (simp add: completeFlight_def Let_def clearTimeout_def forEachWaiter_eq)
  finally show ?thesis .
qed

subsection \<open>Facts about single calls\<close>

lemma getOrCreateMany_pending:
  assumes "map_of (flights t) (createFlightKey method url) = Some a" "\<not> completed (heap t a)"
  shows "getOrCreateMany t nows method url =
     (t, map (\<lambda>_. FlightInfo False a (createFlightKey method url)) nows)"
  using assms by (induction nows) (simp_all add: getOrCreateFlight_def)

lemma getOrCreateFlight_no_pending:
  assumes "\<forall>a. map_of (flights t) (createFlightKey method url) = Some a \<longrightarrow> completed (heap t a)"
  shows "getOrCreateFlight t now method url = registerFlight t now method url"
  using assms by (auto simp: getOrCreateFlight_def Let_def split: option.splits)

lemma registerFlight_pending:
  "map_of (flights (fst (registerFlight t now method url))) (createFlightKey method url) =
     Some (nextRef t)"
  "\<not> completed (heap (fst (registerFlight t now method url)) (nextRef t))"
  by (simp_all add: registerFlight_fields update_conv')

lemma completeFlight_removes:
  "map_of (flights (completeFlight t k err rs)) k = None"
  by (cases "map_of (flights t) k")
     (simp_all add: completeFlight_None completeFlight_fields delete_conv')

lemma delivered_completeFlight:
  assumes "map_of (flights t) k = Some a"
  shows "delivered t (completeFlight t k err rs) =
     map (\<lambda>cb. if truthy err then Call (cb_id cb) err JNull else Call (cb_id cb) JNull rs)
       (waiters (heap t a))"
  by (simp add: delivered_def completeFlight_fields(4) [OF assms] calls_notifications)

lemma abortFlight_removes:
  assumes "inv t"
  shows "map_of (flights (abortFlight t k err)) k = None"
proof (cases "map_of (flights t) k")
  case None
  then show ?thesis by (simp add: abortFlight_def)
next
  case (Some a)
  with invD1 [OF assms Some] show ?thesis
    by (simp add: abortFlight_def completeFlight_removes)
qed

lemma fireTimer_removes:
  assumes "inv t" "timers t tid = Some (k, ms)"
  shows "map_of (flights (fireTimer t tid)) k = None"
proof -
  have "inv (t\<lparr>timers := (timers t)(tid := None)\<rparr>)"
    using assms(1) by (simp add: inv_timers_upd)
  from abortFlight_removes [OF this] assms(2) show ?thesis
    by (simp add: fireTimer_def)
qed

lemma run_entry_pending:
  assumes "run tmo ops = (t, hs)" "(k, a) \<in> set (flights t)"
  shows "a < nextRef t \<and> key (heap t a) = k \<and> \<not> completed (heap t a)"
proof -
  from run_inv(3) [OF assms(1)] assms(2) have "map_of (flights t) k = Some a" by simp
  from invD1 [OF run_inv(1) [OF assms(1)] this] show ?thesis .
qed

lemma run_count_pending:
  assumes "run tmo ops = (t, hs)"
  shows "length (flights t) = length (filter (\<lambda>a. \<not> completed (heap t a)) [0..<nextRef t])"
proof -
  note e = run_entry_pending [OF assms]
  have inj: "inj_on snd (set (flights t))"
  proof (rule inj_onI)
    fix x y assume x: "x \<in> set (flights t)" and y: "y \<in> set (flights t)"
      and xy: "snd x = snd y"
    from x have "key (heap t (snd x)) = fst x" using e [of "fst x" "snd x"] by simp
    moreover from y have "key (heap t (snd y)) = fst y" using e [of "fst y" "snd y"] by simp
    ultimately show "x = y" using xy by (simp add: prod_eq_iff)
  qed
  have d: "distinct (flights t)"
    using run_inv(3) [OF assms] by (simp add: distinct_map)
  have "snd ` set (flights t) = {a. a < nextRef t \<and> \<not> completed (heap t a)}"
  proof (intro equalityI subsetI)
    fix a assume "a \<in> snd ` set (flights t)"
    then obtain k where "(k, a) \<in> set (flights t)" by force
    from e [OF this] show "a \<in> {a. a < nextRef t \<and> \<not> completed (heap t a)}" by simp
  next
    fix a assume "a \<in> {a. a < nextRef t \<and> \<not> completed (heap t a)}"
    then have "map_of (flights t) (key (heap t a)) = Some a"
      using invD2 [OF run_inv(1) [OF assms]] by simp
    then have "(key (heap t a), a) \<in> set (flights t)" by (rule map_of_SomeD)
    then show "a \<in> snd ` set (flights t)" by force
  qed
  moreover have "length (flights t) = card (snd ` set (flights t))"
    using inj d by (simp add: card_image distinct_card)
  moreover have "length (filter (\<lambda>a. \<not> completed (heap t a)) [0..<nextRef t]) =
      card (set (filter (\<lambda>a. \<not> completed (heap t a)) [0..<nextRef t]))"
    by (rule distinct_card [symmetric]) simp
  moreover have "set (filter (\<lambda>a. \<not> completed (heap t a)) [0..<nextRef t]) =
      {a. a < nextRef t \<and> \<not> completed (heap t a)}"
    by auto
  ultimately show ?thesis by simp
qed

subsection \<open>The scenarios, evaluated\<close>

lemma run_pendingOps:
  "run None pendingOps =
     (\<lparr> flights = [(''GET:/data'', 0)], timeoutMs = 30000,
        heap = (\<lambda>_. blankFlight)(0 := \<lparr> key = ''GET:/data'', startTime = 0,
          waiters = [quietCallback 1, throwingCallback 2 (JStr ''sink''), quietCallback 3],
          result = JNull, error = JNull, completed = False, timeoutHandle = Some 0 \<rparr>),
        nextRef = 1, timers = (\<lambda>_. None)(0 \<mapsto> (''GET:/data'', 30000)), nextTimer = 1, trace = [] \<rparr>,
      [FlightInfo True 0 ''GET:/data'', FlightInfo False 0 ''GET:/data'',
       FlightInfo False 0 ''GET:/data''])"
  by (simp add: run_def pendingOps_def RequestTracker_def getOrCreateFlight_def registerFlight_def
      createFlightKey_def addWaiter_def Let_def)

lemma run_timedOutOps:
  "run None timedOutOps =
     (\<lparr> flights = [], timeoutMs = 30000,
        heap = (\<lambda>_. blankFlight)(0 := \<lparr> key = ''GET:/data'', startTime = 0,
          waiters = [quietCallback 1, throwingCallback 2 (JStr ''sink''), quietCallback 3],
          result = JNull, error = timeoutError, completed = True, timeoutHandle = Some 0 \<rparr>),
        nextRef = 1, timers = (\<lambda>_. None), nextTimer = 1,
        trace = [Call 1 timeoutError JNull, Call 2 timeoutError JNull,
                 ConsoleError ''[Hogo] Waiter callback error:'' (JStr ''sink''),
                 Call 3 timeoutError JNull] \<rparr>,
      [FlightInfo True 0 ''GET:/data'', FlightInfo False 0 ''GET:/data'',
       FlightInfo False 0 ''GET:/data''])"
proof -
  have "run None timedOutOps = step (run None pendingOps) (OpTimerFire 0)"
    by (simp add: run_def timedOutOps_def)
  then show ?thesis
    by (simp add: run_pendingOps fireTimer_def abortFlight_def completeFlight_def Let_def
        clearTimeout_def notifyOne_def invoke_def quietCallback_def throwingCallback_def
        timeoutError_def)
qed

lemma run_staleOps:
  "run (Some 2000) staleOps =
     (\<lparr> flights = [(''GET:/slow'', 1)], timeoutMs = 2000,
        heap = (\<lambda>_. blankFlight)
          (0 := \<lparr> key = ''GET:/slow'', startTime = 0, waiters = [], result = JNull,
                  error = timeoutError, completed = True, timeoutHandle = Some 0 \<rparr>,
           1 := \<lparr> key = ''GET:/slow'', startTime = 3000, waiters = [quietCallback 7],
                  result = JNull, error = JNull, completed = False, timeoutHandle = Some 1 \<rparr>),
        nextRef = 2, timers = (\<lambda>_. None)(1 \<mapsto> (''GET:/slow'', 2000)), nextTimer = 2, trace = [] \<rparr>,
      [FlightInfo True 0 ''GET:/slow'', FlightInfo True 1 ''GET:/slow''])"
  by (simp add: run_def staleOps_def RequestTracker_def getOrCreateFlight_def registerFlight_def
      createFlightKey_def addWaiter_def Let_def fireTimer_def abortFlight_def completeFlight_def
      clearTimeout_def fun_upd_twist)

subsection \<open>Originate and wait\<close>

text \<open>
  Claim C1. When \<^verbatim>\<open>flights\<close> holds no pending record for the key, a series of
  \<^verbatim>\<open>getOrCreateFlight\<close> calls for that key returns \<open>isNew = True\<close> exactly for the first
  call and \<open>isNew = False\<close> for every later one; all returned objects point to the one
  new record, which is then registered and pending. Once that record is completed
  (\<^verbatim>\<open>completeFlight\<close> with any outcome), the next call for the key returns
  \<open>isNew = True\<close> again, on a different record.
\<close>

theorem getOrCreateFlight_one_originate:
  assumes "\<forall>a. map_of (flights t) (createFlightKey method url) = Some a \<longrightarrow> completed (heap t a)"
  shows "map isNew (snd (getOrCreateMany t (now # nows) method url)) =
           True # replicate (length nows) False
       \<and> (\<forall>h \<in> set (snd (getOrCreateMany t (now # nows) method url)). flightData h = nextRef t)
       \<and> map_of (flights (fst (getOrCreateMany t (now # nows) method url)))
            (createFlightKey method url) = Some (nextRef t)
       \<and> \<not> completed (heap (fst (getOrCreateMany t (now # nows) method url)) (nextRef t))
       \<and> (\<forall>err rs now'.
            isNew (snd (getOrCreateFlight
              (completeFlight (fst (getOrCreateMany t (now # nows) method url))
                 (createFlightKey method url) err rs) now' method url))
          \<and> flightData (snd (getOrCreateFlight
              (completeFlight (fst (getOrCreateMany t (now # nows) method url))
                 (createFlightKey method url) err rs) now' method url)) \<noteq> nextRef t)
       \<and> (map_of (flights t2) (createFlightKey method url) = Some a2
            \<and> \<not> completed (heap t2 a2) \<longrightarrow>
          getOrCreateFlight t2 now2 method url =
            (t2, FlightInfo False a2 (createFlightKey method url)))"
proof -
  let ?k = "createFlightKey method url"
  let ?t1 = "fst (registerFlight t now method url)"
  have g: "getOrCreateFlight t now method url = (?t1, FlightInfo True (nextRef t) ?k)"
    using getOrCreateFlight_no_pending [OF assms, of now] registerFlight_fields(5) [of t "now" "method" "url"]
    by (simp add: prod_eq_iff)
  have m: "getOrCreateMany t (now # nows) method url =
      (?t1, FlightInfo True (nextRef t) ?k # map (\<lambda>_. FlightInfo False (nextRef t) ?k) nows)"
    using getOrCreateMany_pending [OF registerFlight_pending, of t "now" "method" "url" nows]
    by (simp add: g)
  have c: "getOrCreateFlight (completeFlight ?t1 ?k err rs) now' method url =
      registerFlight (completeFlight ?t1 ?k err rs) now' method url" for err rs now'
    by (rule getOrCreateFlight_no_pending) (simp add: completeFlight_removes)
  have n: "nextRef (completeFlight ?t1 ?k err rs) = Suc (nextRef t)" for err rs
    using completeFlight_fields(3) [OF registerFlight_pending(1), of t "now" "method" "url" err rs]
    by (simp add: registerFlight_fields)
  have w: "map_of (flights t2) ?k = Some a2 \<and> \<not> completed (heap t2 a2) \<longrightarrow>
      getOrCreateFlight t2 now2 method url = (t2, FlightInfo False a2 ?k)"
    by (simp add: getOrCreateFlight_def)
  show ?thesis
    unfolding m using w
    by (simp add: registerFlight_pending c registerFlight_fields(5) n map_replicate_const)
qed

theorem getOrCreateFlight_one_originate_witness:
  "map isNew (snd (getOrCreateMany (RequestTracker None) [0, 1, 2] ''GET'' ''/data'')) =
     [True, False, False]
   \<and> getOrCreateFlight (fst (run None pendingOps)) 3 ''GET'' ''/data'' =
       (fst (run None pendingOps), FlightInfo False 0 ''GET:/data'')"
  using getOrCreateFlight_one_originate [of "RequestTracker None" "''GET''" "''/data''" 0 "[1, 2]"
      "fst (run None pendingOps)" 0 3]
  by (simp add: RequestTracker_def run_pendingOps createFlightKey_def)

subsection \<open>Completion and fan-out\<close>

text \<open>
  Claim C2. In every state reached by a sequence of client calls, \<^verbatim>\<open>setResult(v)\<close> on an
  originator object whose flight is still pending returns normally, calls every callback
  in the record's \<^verbatim>\<open>waiters\<close> exactly once, in list order, with \<^verbatim>\<open>(null, v)\<close>, marks the
  record completed with result \<open>v\<close> and no error, and removes the record from
  \<^verbatim>\<open>flights\<close>. The list order is the registration order: while the flight is pending,
  \<^verbatim>\<open>addWaiter\<close> on any object of that record calls nothing and appends the callback at
  the end of \<^verbatim>\<open>waiters\<close>.
\<close>

theorem setResult_notifies_waiters:
  assumes "run tmo ops = (t, hs)" "i < length hs" "isNew (hs ! i)"
    and "\<not> completed (heap t (flightData (hs ! i)))"
  shows "snd (setResult t (hs ! i) v) = None
       \<and> trace (fst (setResult t (hs ! i) v)) =
           trace t @ concat (map (notification JNull v) (waiters (heap t (flightData (hs ! i)))))
       \<and> delivered t (fst (setResult t (hs ! i) v)) =
           map (\<lambda>cb. Call (cb_id cb) JNull v) (waiters (heap t (flightData (hs ! i))))
       \<and> map_of (flights (fst (setResult t (hs ! i) v))) (flightKey (hs ! i)) = None
       \<and> (\<forall>k. (k, flightData (hs ! i)) \<notin> set (flights (fst (setResult t (hs ! i) v))))
       \<and> completed (heap (fst (setResult t (hs ! i) v)) (flightData (hs ! i)))
       \<and> result (heap (fst (setResult t (hs ! i) v)) (flightData (hs ! i))) = v
       \<and> error (heap (fst (setResult t (hs ! i) v)) (flightData (hs ! i))) = JNull
       \<and> (\<forall>j cb. j < length hs \<and> flightData (hs ! j) = flightData (hs ! i) \<longrightarrow>
            snd (addWaiter t (hs ! j) cb) = None
          \<and> trace (fst (addWaiter t (hs ! j) cb)) = trace t
          \<and> waiters (heap (fst (addWaiter t (hs ! j) cb)) (flightData (hs ! i))) =
              waiters (heap t (flightData (hs ! i))) @ [cb])"
proof -
  let ?h = "hs ! i"
  let ?a = "flightData ?h"
  let ?t' = "completeFlight t (flightKey ?h) JNull v"
  have r: "map_of (flights t) (flightKey ?h) = Some ?a"
    by (rule run_pending_registered [OF assms(1,2,4)])
  note f = completeFlight_fields [OF r, of JNull v]
  have s: "setResult t ?h v = (?t', None)"
    using assms(3) by (simp add: setResult_def)
  have gone: "(k, ?a) \<notin> set (flights ?t')" for k
  proof
    assume "(k, ?a) \<in> set (flights ?t')"
    then have "(k, ?a) \<in> set (flights t)" and "k \<noteq> flightKey ?h"
      by (auto simp: f(1) AList.delete_eq)
    moreover from run_inv(3) [OF assms(1)] have "distinct (map fst (flights t))" .
    ultimately have "map_of (flights t) k = Some ?a" by simp
    from invD1 [OF run_inv(1) [OF assms(1)] this] run_handle(2) [OF assms(1,2)] \<open>k \<noteq> flightKey ?h\<close>
    show False by simp
  qed
  have w: "snd (addWaiter t (hs ! j) cb) = None
          \<and> trace (fst (addWaiter t (hs ! j) cb)) = trace t
          \<and> waiters (heap (fst (addWaiter t (hs ! j) cb)) ?a) = waiters (heap t ?a) @ [cb]"
    if "j < length hs" "flightData (hs ! j) = ?a" for j cb
    using addWaiter_pending [OF run_inv(1) [OF assms(1)] run_handle(1) [OF assms(1) that(1)], of cb]
      assms(4) that(2)
    by simp
  show ?thesis
    unfolding s
    using delivered_completeFlight [OF r, of JNull v] gone w
      completeFlight_removes [of t "flightKey ?h" JNull v]
    by (simp add: f(2,3,4))
qed

theorem setResult_notifies_waiters_witness:
  "delivered (fst (run None pendingOps))
     (fst (setResult (fst (run None pendingOps)) (snd (run None pendingOps) ! 0) (JNum 1))) =
   [Call 1 JNull (JNum 1), Call 2 JNull (JNum 1), Call 3 JNull (JNum 1)]"
  using setResult_notifies_waiters [OF run_pendingOps, of 0 "JNum 1"]
  by (simp add: run_pendingOps quietCallback_def throwingCallback_def)

text \<open>
  The guard of \<^verbatim>\<open>completeFlight\<close> (\<^verbatim>\<open>if (!flightData) return\<close>): \<^verbatim>\<open>setResult\<close> and
  \<^verbatim>\<open>setError\<close> on an originator object return normally and leave the whole tracker
  state unchanged whenever \<^verbatim>\<open>flights\<close> holds no record under the object's key. That is
  so directly after the object's own \<^verbatim>\<open>setResult\<close> or \<^verbatim>\<open>setError\<close>, and, in a
  reachable state, directly after the timeout of that key has fired.
\<close>

lemma repeated_completion_noop:
  assumes "isNew h"
  shows "(map_of (flights t) (flightKey h) = None \<longrightarrow>
            setResult t h v = (t, None) \<and> setError t h e = (t, None))
       \<and> setResult (fst (setResult t h v0)) h v = (fst (setResult t h v0), None)
       \<and> setError (fst (setResult t h v0)) h e = (fst (setResult t h v0), None)
       \<and> setResult (fst (setError t h e0)) h v = (fst (setError t h e0), None)
       \<and> setError (fst (setError t h e0)) h e = (fst (setError t h e0), None)
       \<and> (run tmo ops = (t', hs) \<and> timers t' tid = Some (flightKey h, ms) \<longrightarrow>
            setResult (fireTimer t' tid) h v = (fireTimer t' tid, None)
          \<and> setError (fireTimer t' tid) h e = (fireTimer t' tid, None))"
proof -
  have "map_of (flights (fireTimer t' tid)) (flightKey h) = None"
    if "run tmo ops = (t', hs)" "timers t' tid = Some (flightKey h, ms)"
    by (rule fireTimer_removes [OF run_inv(1) [OF that(1)] that(2)])
  with assms show ?thesis
    by (simp add: setResult_def setError_def completeFlight_None completeFlight_removes)
qed

lemma repeated_completion_noop_example:
  "setResult (RequestTracker None) (FlightInfo True 0 ''GET:/data'') (JNum 2) =
     (RequestTracker None, None)
   \<and> setResult (fst (setResult (fst (run None pendingOps)) (snd (run None pendingOps) ! 0) (JNum 1)))
       (snd (run None pendingOps) ! 0) (JNum 2) =
     (fst (setResult (fst (run None pendingOps)) (snd (run None pendingOps) ! 0) (JNum 1)), None)
   \<and> setError (fireTimer (fst (run None pendingOps)) 0) (snd (run None pendingOps) ! 0)
        (JStr ''boom'') = (fireTimer (fst (run None pendingOps)) 0, None)"
proof -
  let ?t = "fst (run None pendingOps)"
  let ?hs = "snd (run None pendingOps)"
  have P: "run None pendingOps = (?t, ?hs)" by simp
  have 1: "isNew (FlightInfo True 0 ''GET:/data'')" by simp
  have 2: "map_of (flights (RequestTracker None)) (flightKey (FlightInfo True 0 ''GET:/data'')) = None"
    by (simp add: RequestTracker_def)
  have 3: "timers ?t 0 = Some (flightKey (FlightInfo True 0 ''GET:/data''), 30000)"
    by (simp add: run_pendingOps)
  have 4: "?hs ! 0 = FlightInfo True 0 ''GET:/data''" by (simp add: run_pendingOps)
  from repeated_completion_noop [OF 1, where t = "RequestTracker None" and v = "JNum 2"
      and e = "JStr ''boom''" and ?v0.0 = "JNum 1" and ?e0.0 = JNull
      and tmo = None and ops = pendingOps and t' = ?t and hs = ?hs and tid = 0 and ms = 30000]
    repeated_completion_noop [OF 1, where t = ?t and v = "JNum 2"
      and e = "JStr ''boom''" and ?v0.0 = "JNum 1" and ?e0.0 = JNull
      and tmo = None and ops = pendingOps and t' = ?t and hs = ?hs and tid = 0 and ms = 30000]
    2 3 P
  show ?thesis
    unfolding 4 by blast
qed

text \<open>
  Claim C3 on the code. The guard looks the flight up by key, not by record. In
  \<open>staleOps\<close> the first flight for \<^verbatim>\<open>GET:/slow\<close> has completed by timeout (record 0,
  with the timeout error stored) and a second flight is registered under the same key
  (record 1, pending, one waiter). \<^verbatim>\<open>setResult\<close> on the object of the first flight
  returns normally, yet it is no no-op: it completes record 1 with the late result, calls
  the waiter of the second flight with it, and empties \<^verbatim>\<open>flights\<close>. The sibling closure
  \<^verbatim>\<open>addWaiter\<close> of the same object, in the same state, is bound to the record: it
  answers with the first flight's timeout error and leaves \<^verbatim>\<open>flights\<close> alone.
\<close>

theorem stale_setResult_completes_new_flight:
  "isNew (snd (run (Some 2000) staleOps) ! 0)
   \<and> flightData (snd (run (Some 2000) staleOps) ! 0) = 0
   \<and> completed (heap (fst (run (Some 2000) staleOps)) 0)
   \<and> error (heap (fst (run (Some 2000) staleOps)) 0) = JError ''Request flight timeout exceeded''
   \<and> flights (fst (run (Some 2000) staleOps)) = [(''GET:/slow'', 1)]
   \<and> \<not> completed (heap (fst (run (Some 2000) staleOps)) 1)
   \<and> waiters (heap (fst (run (Some 2000) staleOps)) 1) = [quietCallback 7]
   \<and> snd (setResult (fst (run (Some 2000) staleOps))
        (snd (run (Some 2000) staleOps) ! 0) (JStr ''late'')) = None
   \<and> flights (fst (setResult (fst (run (Some 2000) staleOps))
        (snd (run (Some 2000) staleOps) ! 0) (JStr ''late''))) = []
   \<and> delivered (fst (run (Some 2000) staleOps))
        (fst (setResult (fst (run (Some 2000) staleOps))
          (snd (run (Some 2000) staleOps) ! 0) (JStr ''late''))) = [Call 7 JNull (JStr ''late'')]
   \<and> completed (heap (fst (setResult (fst (run (Some 2000) staleOps))
        (snd (run (Some 2000) staleOps) ! 0) (JStr ''late''))) 1)
   \<and> result (heap (fst (setResult (fst (run (Some 2000) staleOps))
        (snd (run (Some 2000) staleOps) ! 0) (JStr ''late''))) 1) = JStr ''late''
   \<and> fst (setResult (fst (run (Some 2000) staleOps))
        (snd (run (Some 2000) staleOps) ! 0) (JStr ''late'')) \<noteq> fst (run (Some 2000) staleOps)
   \<and> trace (fst (addWaiter (fst (run (Some 2000) staleOps))
        (snd (run (Some 2000) staleOps) ! 0) (quietCallback 8))) =
       [Call 8 (JError ''Request flight timeout exceeded'') JNull]
   \<and> flights (fst (addWaiter (fst (run (Some 2000) staleOps))
        (snd (run (Some 2000) staleOps) ! 0) (quietCallback 8))) = [(''GET:/slow'', 1)]"
proof -
  let ?t = "fst (run (Some 2000) staleOps)"
  let ?h = "snd (run (Some 2000) staleOps) ! 0"
  have f: "flights (fst (setResult ?t ?h (JStr ''late''))) = []"
    by (simp add: run_staleOps setResult_def completeFlight_def Let_def clearTimeout_def
        notifyOne_def invoke_def quietCallback_def)
  have g: "flights ?t = [(''GET:/slow'', 1)]" by (simp add: run_staleOps)
  have n: "fst (setResult ?t ?h (JStr ''late'')) \<noteq> ?t"
  proof
    assume "fst (setResult ?t ?h (JStr ''late'')) = ?t"
    then have "flights (fst (setResult ?t ?h (JStr ''late''))) = flights ?t" by simp
    with f g show False by simp
  qed
  have r: "isNew ?h \<and> flightData ?h = 0 \<and> completed (heap ?t 0)
      \<and> error (heap ?t 0) = JError ''Request flight timeout exceeded''
      \<and> \<not> completed (heap ?t 1) \<and> waiters (heap ?t 1) = [quietCallback 7]"
    by (simp add: run_staleOps timeoutError_def)
  have s: "snd (setResult ?t ?h (JStr ''late'')) = None
      \<and> delivered ?t (fst (setResult ?t ?h (JStr ''late''))) = [Call 7 JNull (JStr ''late'')]
      \<and> completed (heap (fst (setResult ?t ?h (JStr ''late''))) 1)
      \<and> result (heap (fst (setResult ?t ?h (JStr ''late''))) 1) = JStr ''late''"
    by (simp add: run_staleOps setResult_def completeFlight_def Let_def clearTimeout_def
        notifyOne_def invoke_def delivered_def quietCallback_def)
  have w: "trace (fst (addWaiter ?t ?h (quietCallback 8))) =
        [Call 8 (JError ''Request flight timeout exceeded'') JNull]
      \<and> flights (fst (addWaiter ?t ?h (quietCallback 8))) = [(''GET:/slow'', 1)]"
    by (simp add: run_staleOps addWaiter_def Let_def invoke_def quietCallback_def timeoutError_def)
  from f g n r s w show ?thesis by blast
qed

text \<open>
  Claim C4. In every reachable state, while a record is not completed its timer is armed
  with the record's key. When that timer fires, the resulting state is the one
  \<^verbatim>\<open>setError\<close> with the timeout error gives on the record's originator object, that is
  \<^verbatim>\<open>completeFlight(key, timeoutError, null)\<close>: the record is completed with that error
  and a null result, every waiter is called once with \<^verbatim>\<open>(timeoutError, null)\<close>, and the
  key is removed from \<^verbatim>\<open>flights\<close>. The timeout error is the truthy value
  \<^verbatim>\<open>new Error('Request flight timeout exceeded')\<close>, so it is delivered as an error, in
  the first argument, never as a result. On a pending record \<^verbatim>\<open>abortFlight(key, e)\<close>
  equals \<^verbatim>\<open>completeFlight(key, e, null)\<close> for every \<open>e\<close>.
\<close>

theorem timer_fire_equals_setError:
  assumes "run tmo ops = (t, hs)" "i < length hs" "isNew (hs ! i)"
    and "\<not> completed (heap t (flightData (hs ! i)))"
    and "timeoutHandle (heap t (flightData (hs ! i))) = Some tid"
  shows "timers t tid = Some (flightKey (hs ! i), timeoutMs t)
       \<and> fireTimer t tid = fst (setError t (hs ! i) timeoutError)
       \<and> fireTimer t tid = completeFlight t (flightKey (hs ! i)) timeoutError JNull
       \<and> abortFlight t (flightKey (hs ! i)) e = completeFlight t (flightKey (hs ! i)) e JNull
       \<and> completed (heap (fireTimer t tid) (flightData (hs ! i)))
       \<and> error (heap (fireTimer t tid) (flightData (hs ! i))) = timeoutError
       \<and> result (heap (fireTimer t tid) (flightData (hs ! i))) = JNull
       \<and> delivered t (fireTimer t tid) =
           map (\<lambda>cb. Call (cb_id cb) timeoutError JNull) (waiters (heap t (flightData (hs ! i))))
       \<and> map_of (flights (fireTimer t tid)) (flightKey (hs ! i)) = None
       \<and> timeoutError = JError ''Request flight timeout exceeded''
       \<and> truthy timeoutError
       \<and> fireTimer t tid =
           fst (setError t (hs ! i) (JError ''Request flight timeout exceeded''))
       \<and> error (heap (fireTimer t tid) (flightData (hs ! i))) =
           JError ''Request flight timeout exceeded''
       \<and> delivered t (fireTimer t tid) =
           map (\<lambda>cb. Call (cb_id cb) (JError ''Request flight timeout exceeded'') JNull)
             (waiters (heap t (flightData (hs ! i))))"
proof -
  let ?h = "hs ! i"
  let ?a = "flightData ?h"
  let ?k = "flightKey ?h"
  have r: "map_of (flights t) ?k = Some ?a"
    by (rule run_pending_registered [OF assms(1,2,4)])
  from tinvD [OF run_tinv [OF assms(1)] run_handle(1) [OF assms(1,2)]] assms(4,5)
    run_handle(2) [OF assms(1,2)]
  have tm: "timers t tid = Some (?k, timeoutMs t)" by auto
  have f: "fireTimer t tid = completeFlight t ?k timeoutError JNull"
    by (rule fireTimer_pending [OF r assms(4,5) tm])
  have a: "abortFlight t ?k e = completeFlight t ?k e JNull"
    using r assms(4) by (simp add: abortFlight_def)
  show ?thesis
    unfolding f
    using delivered_completeFlight [OF r, of timeoutError JNull]
      completeFlight_removes [of t ?k timeoutError JNull] assms(3)
    by (simp add: tm a setError_def completeFlight_fields(2) [OF r] timeoutError_def)
qed

theorem timer_fire_equals_setError_witness:
  "fireTimer (fst (run None pendingOps)) 0 =
     fst (setError (fst (run None pendingOps)) (snd (run None pendingOps) ! 0)
       (JError ''Request flight timeout exceeded''))
   \<and> delivered (fst (run None pendingOps)) (fireTimer (fst (run None pendingOps)) 0) =
       [Call 1 (JError ''Request flight timeout exceeded'') JNull,
        Call 2 (JError ''Request flight timeout exceeded'') JNull,
        Call 3 (JError ''Request flight timeout exceeded'') JNull]
   \<and> error (heap (fireTimer (fst (run None pendingOps)) 0) 0) =
       JError ''Request flight timeout exceeded''
   \<and> result (heap (fireTimer (fst (run None pendingOps)) 0) 0) = JNull
   \<and> truthy timeoutError"
proof -
  let ?t = "fst (run None pendingOps)"
  let ?hs = "snd (run None pendingOps)"
  have P: "run None pendingOps = (?t, ?hs)" by simp
  have 1: "0 < length ?hs" by (simp add: run_pendingOps)
  have 2: "isNew (?hs ! 0)" by (simp add: run_pendingOps)
  have 3: "\<not> completed (heap ?t (flightData (?hs ! 0)))" by (simp add: run_pendingOps)
  have 4: "timeoutHandle (heap ?t (flightData (?hs ! 0))) = Some 0" by (simp add: run_pendingOps)
  have 5: "waiters (heap ?t (flightData (?hs ! 0))) =
      [quietCallback 1, throwingCallback 2 (JStr ''sink''), quietCallback 3]"
    by (simp add: run_pendingOps)
  have 6: "flightData (?hs ! 0) = 0" by (simp add: run_pendingOps)
  note T = timer_fire_equals_setError [OF P 1 2 3 4, of JNull]
  have A: "fireTimer ?t 0 = fst (setError ?t (?hs ! 0) (JError ''Request flight timeout exceeded''))"
    using T by blast
  have B: "delivered ?t (fireTimer ?t 0) =
      map (\<lambda>cb. Call (cb_id cb) (JError ''Request flight timeout exceeded'') JNull)
        (waiters (heap ?t (flightData (?hs ! 0))))"
    using T by blast
  have C: "error (heap (fireTimer ?t 0) (flightData (?hs ! 0))) =
      JError ''Request flight timeout exceeded''"
    using T by blast
  have D: "result (heap (fireTimer ?t 0) (flightData (?hs ! 0))) = JNull"
    using T by blast
  have E: "truthy timeoutError" using T by blast
  have B': "delivered ?t (fireTimer ?t 0) =
       [Call 1 (JError ''Request flight timeout exceeded'') JNull,
        Call 2 (JError ''Request flight timeout exceeded'') JNull,
        Call 3 (JError ''Request flight timeout exceeded'') JNull]"
    unfolding B 5 by (simp add: quietCallback_def throwingCallback_def)
  from A B' C D E show ?thesis unfolding 6 by blast
qed

subsection \<open>Bookkeeping\<close>

text \<open>
  Claim C5. In every state reached by a sequence of \<^verbatim>\<open>getOrCreateFlight\<close>,
  \<^verbatim>\<open>addWaiter\<close>, \<^verbatim>\<open>setResult\<close>, \<^verbatim>\<open>setError\<close> and timer-fire steps, every record in
  \<^verbatim>\<open>flights\<close> has \<open>completed = False\<close>. So \<^verbatim>\<open>getOrCreateFlight\<close> never meets a
  completed record: it registers a new flight exactly when the key is absent, and
  otherwise returns the registered record with \<open>isNew = False\<close>, state unchanged.
\<close>

theorem flights_hold_only_pending:
  assumes "run tmo ops = (t, hs)"
  shows "(\<forall>(k, a) \<in> set (flights t). \<not> completed (heap t a))
       \<and> (\<forall>now method url. getOrCreateFlight t now method url =
            (case map_of (flights t) (createFlightKey method url) of
               None \<Rightarrow> registerFlight t now method url
             | Some a \<Rightarrow> (t, FlightInfo False a (createFlightKey method url))))"
  using run_entry_pending [OF assms] getOrCreateFlight_inv_eq [OF run_inv(1) [OF assms]]
  by auto

theorem flights_hold_only_pending_witness:
  "\<not> completed (heap (fst (run (Some 2000) staleOps)) 1)
   \<and> getOrCreateFlight (fst (run (Some 2000) staleOps)) 4000 ''GET'' ''/slow'' =
       (fst (run (Some 2000) staleOps), FlightInfo False 1 ''GET:/slow'')"
  using flights_hold_only_pending [OF run_staleOps]
  by (simp add: run_staleOps createFlightKey_def)

text \<open>
  Claim C6. In every reachable state, each completion path leaves the key without a
  record in \<^verbatim>\<open>flights\<close>: \<^verbatim>\<open>setResult\<close> and \<^verbatim>\<open>setError\<close> on an originator object,
  \<^verbatim>\<open>abortFlight\<close>, and a firing timer. Every entry of \<^verbatim>\<open>flights\<close> is an allocated,
  not completed record, and \<^verbatim>\<open>getStats().totalInFlight\<close> is the number of allocated
  records that are not completed; it is zero once every started flight has completed.
\<close>

theorem completion_removes_record:
  assumes "run tmo ops = (t, hs)"
  shows "(\<forall>i v e. i < length hs \<and> isNew (hs ! i) \<longrightarrow>
            map_of (flights (fst (setResult t (hs ! i) v))) (flightKey (hs ! i)) = None
          \<and> map_of (flights (fst (setError t (hs ! i) e))) (flightKey (hs ! i)) = None)
       \<and> (\<forall>k e. map_of (flights (abortFlight t k e)) k = None)
       \<and> (\<forall>tid k ms. timers t tid = Some (k, ms) \<longrightarrow>
            map_of (flights (fireTimer t tid)) k = None)
       \<and> (\<forall>(k, a) \<in> set (flights t). a < nextRef t \<and> \<not> completed (heap t a))
       \<and> totalInFlight (getStats t now) =
           length (filter (\<lambda>a. \<not> completed (heap t a)) [0..<nextRef t])
       \<and> ((\<forall>a < nextRef t. completed (heap t a)) \<longrightarrow> totalInFlight (getStats t now) = 0)"
proof -
  note i = run_inv(1) [OF assms]
  have c: "totalInFlight (getStats t now) =
      length (filter (\<lambda>a. \<not> completed (heap t a)) [0..<nextRef t])"
    using run_count_pending [OF assms] by (simp add: getStats_def)
  have z: "totalInFlight (getStats t now) = 0" if "\<forall>a < nextRef t. completed (heap t a)"
    unfolding c using that by (simp add: filter_empty_conv)
  have e: "\<forall>(k, a) \<in> set (flights t). a < nextRef t \<and> \<not> completed (heap t a)"
    using run_entry_pending [OF assms] by auto
  show ?thesis
    using c z e abortFlight_removes [OF i] fireTimer_removes [OF i]
    by (simp add: setResult_def setError_def completeFlight_removes)
qed

theorem completion_removes_record_witness:
  "map_of (flights (fst (setError (fst (run None pendingOps)) (snd (run None pendingOps) ! 0)
       (JStr ''boom'')))) ''GET:/data'' = None
   \<and> map_of (flights (fireTimer (fst (run None pendingOps)) 0)) ''GET:/data'' = None
   \<and> totalInFlight (getStats (fst (run None pendingOps)) 5) = Suc 0
   \<and> totalInFlight (getStats (fst (run None timedOutOps)) 5) = 0"
proof -
  let ?t = "fst (run None pendingOps)"
  let ?hs = "snd (run None pendingOps)"
  let ?t2 = "fst (run None timedOutOps)"
  have P: "run None pendingOps = (?t, ?hs)" and P2: "run None timedOutOps = (?t2, snd (run None timedOutOps))"
    by simp_all
  note T = completion_removes_record [OF P, of 5]
  note T2 = completion_removes_record [OF P2, of 5]
  have 1: "(0::nat) < length ?hs \<and> isNew (?hs ! 0)"
    by (simp add: run_pendingOps)
  have 2: "timers ?t 0 = Some (''GET:/data'', 30000)" by (simp add: run_pendingOps)
  have 3: "flightKey (?hs ! 0) = ''GET:/data''"
    by (simp add: run_pendingOps)
  have 4: "\<forall>a < nextRef ?t2. completed (heap ?t2 a)"
    by (simp add: run_timedOutOps)
  have 5: "length (filter (\<lambda>a. \<not> completed (heap ?t a)) [0..<nextRef ?t]) = Suc 0"
    by (simp add: run_pendingOps)
  have A: "map_of (flights (fst (setError ?t (?hs ! 0) (JStr ''boom'')))) (flightKey (?hs ! 0)) = None"
    using T 1 by blast
  have B: "map_of (flights (fireTimer ?t 0)) ''GET:/data'' = None"
    using T 2 by blast
  have C: "totalInFlight (getStats ?t 5) =
      length (filter (\<lambda>a. \<not> completed (heap ?t a)) [0..<nextRef ?t])"
    using T by blast
  have D: "totalInFlight (getStats ?t2 5) = 0"
    using T2 4 by blast
  show ?thesis
    unfolding C 5 using A B D unfolding 3 by blast
qed

subsection \<open>Late waiters, errors and throwing callbacks\<close>

text \<open>
  Claim C7 on the code. \<open>lateJoinOps\<close>: a request starts a flight, a second request for
  the same key gets the \<open>isNew = False\<close> object, then the first completes the flight
  with \<^verbatim>\<open>setResult(1)\<close>. \<^verbatim>\<open>addWaiter\<close> on the second object tests only
  \<^verbatim>\<open>existing.error\<close>: the callback is not called, and it is appended to the
  \<^verbatim>\<open>waiters\<close> of the completed record.
\<close>

theorem joined_addWaiter_after_success:
  "\<not> isNew (snd (run None lateJoinOps) ! 1)
   \<and> completed (heap (fst (run None lateJoinOps)) (flightData (snd (run None lateJoinOps) ! 1)))
   \<and> result (heap (fst (run None lateJoinOps)) (flightData (snd (run None lateJoinOps) ! 1))) = JNum 1
   \<and> snd (addWaiter (fst (run None lateJoinOps)) (snd (run None lateJoinOps) ! 1) (quietCallback 9))
       = None
   \<and> trace (fst (addWaiter (fst (run None lateJoinOps)) (snd (run None lateJoinOps) ! 1)
       (quietCallback 9))) = []
   \<and> waiters (heap (fst (addWaiter (fst (run None lateJoinOps)) (snd (run None lateJoinOps) ! 1)
       (quietCallback 9))) (flightData (snd (run None lateJoinOps) ! 1))) = [quietCallback 9]"
  by (simp add: run_def lateJoinOps_def RequestTracker_def getOrCreateFlight_def registerFlight_def
      createFlightKey_def addWaiter_def Let_def setResult_def completeFlight_def clearTimeout_def)

text \<open>
  Claim C8 says that every waiter receives the value passed to \<^verbatim>\<open>setError\<close>.
  \<^verbatim>\<open>completeFlight\<close> tests \<^verbatim>\<open>if (error)\<close>, so it fails for a falsy value: after
  \<^verbatim>\<open>setError(undefined)\<close> the three waiters of \<open>pendingOps\<close> are called with
  \<^verbatim>\<open>(null, null)\<close>.
\<close>

theorem setError_falsy_counterexample:
  "delivered (fst (run None pendingOps))
     (fst (setError (fst (run None pendingOps)) (snd (run None pendingOps) ! 0) JUndefined)) =
   [Call 1 JNull JNull, Call 2 JNull JNull, Call 3 JNull JNull]
   \<and> delivered (fst (run None pendingOps))
     (fst (setError (fst (run None pendingOps)) (snd (run None pendingOps) ! 0) JUndefined)) \<noteq>
   [Call 1 JUndefined JNull, Call 2 JUndefined JNull, Call 3 JUndefined JNull]"
  by (simp add: run_pendingOps setError_def completeFlight_def Let_def clearTimeout_def
      notifyOne_def invoke_def delivered_def quietCallback_def throwingCallback_def)

text \<open>
  Claim C8, amended. In every reachable state, \<^verbatim>\<open>setError(e)\<close> with a truthy \<open>e\<close> on an
  originator object whose flight is pending returns normally and calls every waiter of
  the record exactly once, in order, with \<^verbatim>\<open>(e, null)\<close>: the very value \<open>e\<close> and a
  null result. The record is completed with error \<open>e\<close> and result null.
\<close>

theorem setError_forwards_error:
  assumes "run tmo ops = (t, hs)" "i < length hs" "isNew (hs ! i)"
    and "\<not> completed (heap t (flightData (hs ! i)))"
    and "truthy e"
  shows "snd (setError t (hs ! i) e) = None
       \<and> delivered t (fst (setError t (hs ! i) e)) =
           map (\<lambda>cb. Call (cb_id cb) e JNull) (waiters (heap t (flightData (hs ! i))))
       \<and> error (heap (fst (setError t (hs ! i) e)) (flightData (hs ! i))) = e
       \<and> result (heap (fst (setError t (hs ! i) e)) (flightData (hs ! i))) = JNull
       \<and> completed (heap (fst (setError t (hs ! i) e)) (flightData (hs ! i)))"
proof -
  let ?h = "hs ! i"
  have r: "map_of (flights t) (flightKey ?h) = Some (flightData ?h)"
    by (rule run_pending_registered [OF assms(1,2,4)])
  have s: "setError t ?h e = (completeFlight t (flightKey ?h) e JNull, None)"
    using assms(3) by (simp add: setError_def)
  show ?thesis
    unfolding s
    using delivered_completeFlight [OF r, of e JNull] assms(5)
    by (simp add: completeFlight_fields(2) [OF r])
qed

theorem setError_forwards_error_witness:
  "delivered (fst (run None pendingOps))
     (fst (setError (fst (run None pendingOps)) (snd (run None pendingOps) ! 0) (JStr ''boom''))) =
   [Call 1 (JStr ''boom'') JNull, Call 2 (JStr ''boom'') JNull, Call 3 (JStr ''boom'') JNull]"
  using setError_forwards_error [OF run_pendingOps, of 0 "JStr ''boom''"]
  by (simp add: run_pendingOps quietCallback_def throwingCallback_def)

text \<open>
  Claim C9. If a callback in the \<^verbatim>\<open>waiters\<close> of a registered record throws when
  \<^verbatim>\<open>completeFlight\<close> calls it, the exception goes to \<^verbatim>\<open>console.error\<close> and nowhere
  else: the callbacks after it are called all the same, every waiter is called once with
  the same outcome, and the record is removed from \<^verbatim>\<open>flights\<close>.
\<close>

theorem completeFlight_contains_callback_errors:
  assumes "map_of (flights t) k = Some a"
    and "waiters (heap t a) = ws1 @ cb # ws2"
    and "(if truthy err then cb_throws cb err JNull else cb_throws cb JNull rs) = Some ex"
  shows "trace (completeFlight t k err rs) =
           trace t @ concat (map (notification err rs) ws1)
             @ [if truthy err then Call (cb_id cb) err JNull else Call (cb_id cb) JNull rs,
                ConsoleError ''[Hogo] Waiter callback error:'' ex]
             @ concat (map (notification err rs) ws2)
       \<and> delivered t (completeFlight t k err rs) =
           map (\<lambda>c. if truthy err then Call (cb_id c) err JNull else Call (cb_id c) JNull rs)
             (ws1 @ cb # ws2)
       \<and> flights (completeFlight t k err rs) = AList.delete k (flights t)
       \<and> map_of (flights (completeFlight t k err rs)) k = None"
proof -
  have n: "notification err rs cb =
      [if truthy err then Call (cb_id cb) err JNull else Call (cb_id cb) JNull rs,
       ConsoleError ''[Hogo] Waiter callback error:'' ex]"
    using assms(3) by (simp add: notification_def split: if_splits)
  show ?thesis
    using delivered_completeFlight [OF assms(1), of err rs]
      completeFlight_removes [of t k err rs]
    by (simp add: completeFlight_fields(1,4) [OF assms(1)] assms(2) n)
qed

theorem completeFlight_contains_callback_errors_witness:
  "trace (completeFlight (fst (run None pendingOps)) ''GET:/data'' JNull (JNum 1)) =
     [Call 1 JNull (JNum 1), Call 2 JNull (JNum 1),
      ConsoleError ''[Hogo] Waiter callback error:'' (JStr ''sink''), Call 3 JNull (JNum 1)]
   \<and> flights (completeFlight (fst (run None pendingOps)) ''GET:/data'' JNull (JNum 1)) = []"
proof -
  let ?t = "fst (run None pendingOps)"
  have 1: "map_of (flights ?t) ''GET:/data'' = Some 0" by (simp add: run_pendingOps)
  have 2: "waiters (heap ?t 0) = [quietCallback 1] @ throwingCallback 2 (JStr ''sink'') # [quietCallback 3]"
    by (simp add: run_pendingOps)
  have 3: "(if truthy JNull then cb_throws (throwingCallback 2 (JStr ''sink'')) JNull JNull
            else cb_throws (throwingCallback 2 (JStr ''sink'')) JNull (JNum 1)) = Some (JStr ''sink'')"
    by (simp add: throwingCallback_def)
  have 4: "trace ?t = []" "flights ?t = [(''GET:/data'', 0)]" by (simp_all add: run_pendingOps)
  from completeFlight_contains_callback_errors [OF 1 2 3] show ?thesis
    by (elim conjE) (simp add: 4 notification_def quietCallback_def throwingCallback_def)
qed

section \<open>Properties of Ship\<close>

lemma shipDo_sent:
  assumes "headersSent s"
  shows "res (fst (shipDo env s c)) = res s"
    and "statusCode (fst (shipDo env s c)) = statusCode s"
    and "headersSent (fst (shipDo env s c))"
    and "\<not> isThrown (snd (shipDo env s c))"
  using assms
  by (cases c; simp add: status_def header_def deliver_def json_def text_ship_def html_def
      sendString_def error_ship_def alreadySent_def Let_def)+

lemma endAndMark_success:
  "\<not> isThrown (snd (endAndMark env s payload rv)) \<Longrightarrow>
   headersSent (fst (endAndMark env s payload rv))"
  by (simp add: endAndMark_def resDo_def split: option.splits)

lemma writeAndEnd_success:
  "\<not> isThrown (snd (writeAndEnd env s code hdrs payload rv)) \<Longrightarrow>
   headersSent (fst (writeAndEnd env s code hdrs payload rv))"
  by (simp add: writeAndEnd_def endAndMark_success split: prod.splits option.splits)

lemma shipDo_success:
  assumes "isSend c" "\<not> isThrown (snd (shipDo env s c))"
  shows "headersSent (fst (shipDo env s c))"
proof (cases "headersSent s")
  case True
  then show ?thesis by (rule shipDo_sent(3))
next
  case False
  show ?thesis
  proof (cases c)
    case (CallDeliver d ct)
    with assms False show ?thesis
      by (auto simp: deliver_def Let_def endAndMark_success split: prod.splits option.splits sum.splits)
  next
    case (CallJson d)
    with assms False show ?thesis
      by (auto simp: json_def Let_def writeAndEnd_success split: sum.splits)
  next
    case (CallText d)
    with assms False show ?thesis
      by (auto simp: text_ship_def sendString_def Let_def writeAndEnd_success split: sum.splits)
  next
    case (CallHtml d)
    with assms False show ?thesis
      by (auto simp: html_def sendString_def Let_def writeAndEnd_success split: sum.splits)
  next
    case (CallError message code)
    with assms False show ?thesis
      by (auto simp: error_ship_def Let_def writeAndEnd_success split: sum.splits)
  qed (use assms in simp_all)
qed

lemma shipDoAll_sent:
  "headersSent s \<Longrightarrow>
     res (shipDoAll env s cs) = res s \<and> statusCode (shipDoAll env s cs) = statusCode s
     \<and> headersSent (shipDoAll env s cs)"
  by (induction cs arbitrary: s) (simp_all add: shipDo_sent)

text \<open>
  Claim C10. After a call of \<^verbatim>\<open>deliver\<close>, \<^verbatim>\<open>json\<close>, \<^verbatim>\<open>text\<close>, \<^verbatim>\<open>html\<close> or
  \<^verbatim>\<open>error\<close> that returned without throwing, \<open>headersSent\<close> is true; and after any
  further calls \<open>cs\<close> of the seven methods, the calls made on the underlying response and
  the stored status code are still those of that moment, \<open>headersSent\<close> is still true,
  and one more call of any method returns without throwing and without a call on the
  underlying response.
\<close>

theorem ship_sends_once:
  assumes "isSend c" "\<not> isThrown (snd (shipDo env s c))"
  shows "headersSent (fst (shipDo env s c))
       \<and> res (shipDoAll env (fst (shipDo env s c)) cs) = res (fst (shipDo env s c))
       \<and> statusCode (shipDoAll env (fst (shipDo env s c)) cs) = statusCode (fst (shipDo env s c))
       \<and> headersSent (shipDoAll env (fst (shipDo env s c)) cs)
       \<and> \<not> isThrown (snd (shipDo env (shipDoAll env (fst (shipDo env s c)) cs) c'))
       \<and> res (fst (shipDo env (shipDoAll env (fst (shipDo env s c)) cs) c')) =
           res (fst (shipDo env s c))
       \<and> statusCode (fst (shipDo env (shipDoAll env (fst (shipDo env s c)) cs) c')) =
           statusCode (fst (shipDo env s c))"
proof -
  let ?s1 = "fst (shipDo env s c)"
  have h: "headersSent ?s1" by (rule shipDo_success [OF assms])
  note a = shipDoAll_sent [OF h, of env cs]
  from a have h2: "headersSent (shipDoAll env ?s1 cs)" by simp
  show ?thesis
    using h a shipDo_sent [OF h2, of env c'] by simp
qed

theorem ship_sends_once_witness:
  "res (shipDoAll testEnv newShip
      [CallStatus (JNum 201), CallJson (JNum 1), CallStatus (JNum 404),
       CallHeader (JStr ''X-Late'') (JStr ''1''), CallText (JStr ''late''),
       CallError (JStr ''late'') JUndefined]) =
     [WriteHead (JNum 201) [(''Content-Type'', JStr ''application/json; charset=utf-8''),
                            (''Content-Length'', JNum 3)],
      End (JStr ''[1]'')]
   \<and> statusCode (shipDoAll testEnv newShip
      [CallStatus (JNum 201), CallJson (JNum 1), CallStatus (JNum 404),
       CallHeader (JStr ''X-Late'') (JStr ''1''), CallText (JStr ''late''),
       CallError (JStr ''late'') JUndefined]) = JNum 201"
proof -
  let ?s = "fst (shipDo testEnv newShip (CallStatus (JNum 201)))"
  have 1: "isSend (CallJson (JNum 1))" by simp
  have 2: "\<not> isThrown (snd (shipDo testEnv ?s (CallJson (JNum 1))))"
    by (simp add: status_def newShip_def json_def testEnv_def byteLength_def writeAndEnd_def
        endAndMark_def resDo_def)
  have 3: "res (fst (shipDo testEnv ?s (CallJson (JNum 1)))) =
     [WriteHead (JNum 201) [(''Content-Type'', JStr ''application/json; charset=utf-8''),
                            (''Content-Length'', JNum 3)],
      End (JStr ''[1]'')]"
    "statusCode (fst (shipDo testEnv ?s (CallJson (JNum 1)))) = JNum 201"
    by (simp_all add: status_def newShip_def json_def testEnv_def byteLength_def writeAndEnd_def
        endAndMark_def resDo_def)
  from ship_sends_once [OF 1 2, of "[CallStatus (JNum 404),
       CallHeader (JStr ''X-Late'') (JStr ''1''), CallText (JStr ''late'')]"
       "CallError (JStr ''late'') JUndefined"]
  have "res (shipDoAll testEnv (fst (shipDo testEnv ?s (CallJson (JNum 1))))
         [CallStatus (JNum 404), CallHeader (JStr ''X-Late'') (JStr ''1''), CallText (JStr ''late''),
          CallError (JStr ''late'') JUndefined]) = res (fst (shipDo testEnv ?s (CallJson (JNum 1))))
      \<and> statusCode (shipDoAll testEnv (fst (shipDo testEnv ?s (CallJson (JNum 1))))
         [CallStatus (JNum 404), CallHeader (JStr ''X-Late'') (JStr ''1''), CallText (JStr ''late''),
          CallError (JStr ''late'') JUndefined]) = statusCode (fst (shipDo testEnv ?s (CallJson (JNum 1))))"
    by (elim conjE) (simp del: shipDo.simps)
  then show ?thesis
    unfolding 3 by (simp del: shipDo.simps)
qed

end
